theory Spec2Isabelle
  imports Main
begin

section \<open>Byte strings and the library functions of the blackhole task\<close>

text \<open>
  Go strings are byte sequences; they are modelled as \<open>string\<close> (a list of 8-bit
  characters).  The regular expressions of the program only ever match ASCII characters
  (\<open>\d\<close> is \<open>[0-9]\<close> in Go's syntax), so matching byte by byte finds the same
  matches as Go's matching code point by code point.
\<close>

subsection \<open>Regular expressions with leftmost-first matching\<close>

text \<open>
  Go's \<open>regexp\<close> package prefers, among the matches that start leftmost, the one a
  backtracking matcher finds first: a greedy \<open>x?\<close> tries \<open>x\<close> before the empty
  string, a greedy \<open>x+\<close> tries the longest run first.  The function \<open>ms\<close> lists,
  in that order of preference, what is left of the input after each way of matching a
  prefix of it; the head of the list is the match Go reports at that position.
\<close>

datatype cls = Digit | Lit char

datatype re =
    One cls
  | Plus cls
  | Seq re re
  | Opt re
  | EndText

fun in_cls :: "cls \<Rightarrow> char \<Rightarrow> bool" where
  "in_cls Digit c = (c \<in> set ''0123456789'')"
| "in_cls (Lit a) c = (c = a)"

fun ms :: "re \<Rightarrow> string \<Rightarrow> string list" where
  "ms (One k) s = (case s of [] \<Rightarrow> [] | c # cs \<Rightarrow> if in_cls k c then [cs] else [])"
| "ms (Plus k) s = map (\<lambda>n. drop n s) (rev [1 ..< Suc (length (takeWhile (in_cls k) s))])"
| "ms (Seq r1 r2) s = concat (map (ms r2) (ms r1 s))"
| "ms (Opt r) s = ms r s @ [s]"
| "ms EndText s = (if s = [] then [s] else [])"

text \<open>
  The first match at or after the start of \<open>s\<close>: the matched text and the rest of the
  input behind it.
\<close>

fun find_first :: "re \<Rightarrow> string \<Rightarrow> (string \<times> string) option" where
  "find_first r [] = (case ms r [] of [] \<Rightarrow> None | rest # _ \<Rightarrow> Some ([], rest))"
| "find_first r (c # cs) =
     (case ms r (c # cs) of
        [] \<Rightarrow> find_first r cs
      | rest # _ \<Rightarrow> Some (take (length (c # cs) - length rest) (c # cs), rest))"

text \<open>\<open>Regexp.MatchString\<close>: does the string contain any match.\<close>

definition MatchString :: "re \<Rightarrow> string \<Rightarrow> bool" where
  "MatchString r s = (find_first r s \<noteq> None)"

text \<open>
  \<open>Regexp.FindAllString(s, -1)\<close>: the successive non-overlapping matches, each search
  starting where the previous match ended.  Go returns \<open>nil\<close> when there is none; the
  model returns \<open>[]\<close>, and a list Go returns non-nil is never empty.  The model is
  for patterns that have no empty match, as \<open>ipPattern\<close>, the only pattern it is
  used with (a match of it has at least seven characters); the last branch is not
  reached then and only makes the function total.
\<close>

function FindAllString :: "re \<Rightarrow> string \<Rightarrow> string list" where
  "FindAllString r s =
     (case find_first r s of
        None \<Rightarrow> []
      | Some (m, rest) \<Rightarrow>
          if m \<noteq> [] \<and> length rest < length s then m # FindAllString r rest
          else [m])"
  by pat_completeness auto
termination
  by (relation "measure (\<lambda>(r, s). length s)") auto

declare FindAllString.simps [simp del]

text \<open>
  \<^verbatim>\<open>(\d{1,3}\.\d{1,3}\.\d{1,3}\.\d{1,3})(/\d{0,2})?\<close> and \<^verbatim>\<open>\d+(:\d+)?$\<close>.
  A bounded repetition \<open>x{1,3}\<close> is \<open>x(x(x)?)?\<close> and \<open>x{0,2}\<close> is \<open>(x(x)?)?\<close>;
  groups only capture and do not change what matches.
\<close>

definition rep_1_3 :: "re \<Rightarrow> re" where
  "rep_1_3 x = Seq x (Opt (Seq x (Opt x)))"

definition rep_0_2 :: "re \<Rightarrow> re" where
  "rep_0_2 x = Opt (Seq x (Opt x))"

definition octet :: re where
  "octet = rep_1_3 (One Digit)"

definition ipPattern :: re where
  "ipPattern =
     Seq (Seq octet (Seq (One (Lit CHR ''.'')) (Seq octet (Seq (One (Lit CHR ''.''))
            (Seq octet (Seq (One (Lit CHR ''.'')) octet))))))
         (Opt (Seq (One (Lit CHR ''/'')) (rep_0_2 (One Digit))))"

definition portPattern :: re where
  "portPattern = Seq (Plus Digit) (Seq (Opt (Seq (One (Lit CHR '':'')) (Plus Digit))) EndText)"

subsection \<open>\<open>strings.ToUpper\<close>, \<open>strings.ToLower\<close>, \<open>strings.Split\<close>\<close>

text \<open>
  Go's case mappings work on the code points of the UTF-8 text, by the simple case
  mapping of Unicode.  On ASCII they map the letters \<open>a\<close> to \<open>z\<close> and \<open>A\<close> to
  \<open>Z\<close> and keep every other character.  Outside ASCII exactly two code points have an
  ASCII upper case, U+0131 (dotless i, to \<open>I\<close>) and U+017F (long s, to \<open>S\<close>), and
  exactly two have an ASCII lower case, U+0130 (capital I with dot, to \<open>i\<close>) and
  U+212A (Kelvin sign, to \<open>k\<close>).  The model maps the ASCII letters and the UTF-8
  bytes of these four code points as Go does, and keeps every other byte.

  The model is therefore Go's function wherever Go's result is ASCII text, and its
  result is not ASCII text wherever Go's is not (Go maps the remaining code points to
  code points outside ASCII and replaces bytes that are not UTF-8 by U+FFFD).  The
  program only compares the results with the ASCII words of its two switches, so every
  comparison comes out as it does in Go.
\<close>

definition lower_letters :: string where
  "lower_letters = ''abcdefghijklmnopqrstuvwxyz''"

definition upper_letters :: string where
  "upper_letters = ''ABCDEFGHIJKLMNOPQRSTUVWXYZ''"

definition upper_char :: "char \<Rightarrow> char" where
  "upper_char c = (case map_of (zip lower_letters upper_letters) c of None \<Rightarrow> c | Some u \<Rightarrow> u)"

definition lower_char :: "char \<Rightarrow> char" where
  "lower_char c = (case map_of (zip upper_letters lower_letters) c of None \<Rightarrow> c | Some l \<Rightarrow> l)"

text \<open>The UTF-8 bytes of U+0131, U+017F, U+0130 and U+212A.\<close>

definition dotless_i :: string where
  "dotless_i = [CHR 0xC4, CHR 0xB1]"

definition long_s :: string where
  "long_s = [CHR 0xC5, CHR 0xBF]"

definition dotted_I :: string where
  "dotted_I = [CHR 0xC4, CHR 0xB0]"

definition kelvin_sign :: string where
  "kelvin_sign = [CHR 0xE2, CHR 0x84, CHR 0xAA]"

fun ToUpper :: "string \<Rightarrow> string" where
  "ToUpper [] = []"
| "ToUpper (c # cs) =
     (if take 2 (c # cs) = dotless_i then CHR ''I'' # ToUpper (drop 1 cs)
      else if take 2 (c # cs) = long_s then CHR ''S'' # ToUpper (drop 1 cs)
      else upper_char c # ToUpper cs)"

fun ToLower :: "string \<Rightarrow> string" where
  "ToLower [] = []"
| "ToLower (c # cs) =
     (if take 2 (c # cs) = dotted_I then CHR ''i'' # ToLower (drop 1 cs)
      else if take 3 (c # cs) = kelvin_sign then CHR ''k'' # ToLower (drop 2 cs)
      else lower_char c # ToLower cs)"

text \<open>
  The equations for a non-empty string are not simplification rules; they are
  unfolded where a proof asks for them.
\<close>

declare ToUpper.simps(2) [simp del] ToLower.simps(2) [simp del]

text \<open>
  \<open>strings.Split(s, sep)\<close> for a separator of one character: the pieces between the
  separators, an empty piece between two adjacent ones, and one empty piece for the
  empty string.
\<close>

fun Split :: "string \<Rightarrow> char \<Rightarrow> string list" where
  "Split [] sep = [[]]"
| "Split (c # cs) sep =
     (if c = sep then [] # Split cs sep
      else (case Split cs sep of [] \<Rightarrow> [[c]] | p # ps \<Rightarrow> (c # p) # ps))"

section \<open>The data of the blackhole task\<close>

record BlackholeTarget =
  Host :: string
  Direction :: string
  Protocol :: string
  DstPorts :: string
  SrcPorts :: string

record BlackholeOptions =
  Type :: string
  Timeout :: string
  Targets :: "BlackholeTarget list"

text \<open>
  \<open>bosherr.Error\<close> and \<open>bosherr.Errorf\<close> make an error from a message,
  \<open>bosherr.WrapError\<close> makes one from the error of a collaborator (of type \<open>'e\<close>) and a
  message.
\<close>

datatype 'e error = Error string | WrapError 'e string

section \<open>The command runner\<close>

text \<open>
  \<open>boshsys.CmdRunner\<close> is the collaborator that runs \<open>dig\<close> and \<open>iptables\<close>.  Its
  answer to an invocation may depend on everything it was asked before, so a runner is
  a function of the invocations made so far and of the present one, giving the error or
  the standard output (the program reads nothing else of the result).  The state threaded
  through the program is the list of invocations made, oldest first.
\<close>

type_synonym call = "string \<times> string list"

type_synonym 'e CmdRunner = "call list \<Rightarrow> string \<Rightarrow> string list \<Rightarrow> 'e + string"

definition RunCommand ::
  "'e CmdRunner \<Rightarrow> string \<Rightarrow> string list \<Rightarrow> call list \<Rightarrow> ('e + string) \<times> call list" where
  "RunCommand run name args log = (run log name args, log @ [(name, args)])"

section \<open>Resolving hosts\<close>

definition dig ::
  "'e CmdRunner \<Rightarrow> string \<Rightarrow> call list \<Rightarrow> ('e error + string list) \<times> call list" where
  "dig run hostname log =
     (case RunCommand run ''dig'' [''+short'', hostname] log of
        (Inl err, log') \<Rightarrow> (Inl (WrapError err ''resolving host name''), log')
      | (Inr output, log') \<Rightarrow>
          (let ips = FindAllString ipPattern output in
           if ips = [] then (Inl (Error (''No IPs found for host '' @ hostname)), log')
           else (Inr ips, log')))"

text \<open>
  The hosts of a target (lines 104 to 115 of \<open>rules\<close>); \<open>[]\<close> stands for the \<open>nil\<close>
  of a target without a host, the only case in which the list is empty.
\<close>

definition resolve_hosts ::
  "'e CmdRunner \<Rightarrow> string \<Rightarrow> call list \<Rightarrow> ('e error + string list) \<times> call list" where
  "resolve_hosts run host log =
     (if host = [] then (Inr [], log)
      else if MatchString ipPattern host then (Inr (FindAllString ipPattern host), log)
      else dig run host log)"

section \<open>Compiling the rules\<close>

text \<open>The two switches and the two port checks of \<open>rules\<close> (lines 117 to 159).\<close>

definition direction_of :: "string \<Rightarrow> 'e error + string" where
  "direction_of d =
     (let u = ToUpper d in
      if u = [] then Inr []
      else if u = ''INPUT'' then Inr ''INPUT''
      else if u = ''OUTPUT'' then Inr ''OUTPUT''
      else if u = ''BOTH'' then Inr []
      else Inl (Error (''Invalid direction '' @ [CHR 0x27] @ d @ [CHR 0x27]
                       @ '', must be one of {INPUT, OUTPUT, BOTH} or blank.'')))"

definition protocol_of :: "string \<Rightarrow> 'e error + string" where
  "protocol_of p =
     (let l = ToLower p in
      if l = [] then Inr ''all''
      else if l = ''tcp'' then Inr ''tcp''
      else if l = ''udp'' then Inr ''udp''
      else if l = ''icmp'' then Inr ''icmp''
      else if l = ''all'' then Inr ''all''
      else Inl (Error (''Invalid protocol '' @ [CHR 0x27] @ p @ [CHR 0x27]
                       @ '', must be one of {tcp, udp, icmp, all} or blank.'')))"

definition ports_of :: "string \<Rightarrow> 'e error + string" where
  "ports_of ports =
     (if ports = [] then Inr []
      else if MatchString portPattern ports then Inr ports
      else Inl (Error (''Invalid destination port specified '' @ ports)))"

text \<open>
  The loop that appends the hosts to the command, a comma before each but the first
  (lines 167 to 170 and 192 to 195).
\<close>

fun append_hosts :: "string \<Rightarrow> nat \<Rightarrow> string list \<Rightarrow> string" where
  "append_hosts command i [] = command"
| "append_hosts command i (ip # ips) =
     append_hosts ((if 0 < i then command @ '','' else command) @ ip) (Suc i) ips"

text \<open>
  The command of one chain (lines 163 to 183 for \<open>INPUT\<close> and \<open>-s\<close>, lines 188 to 208
  for \<open>OUTPUT\<close> and \<open>-d\<close>).
\<close>

definition chain_command ::
  "string \<Rightarrow> string \<Rightarrow> string list \<Rightarrow> string \<Rightarrow> string \<Rightarrow> string \<Rightarrow> string" where
  "chain_command chain flag hosts protocol dports sports =
     (let command = chain;
          command = (if hosts \<noteq> [] then append_hosts (command @ flag) 0 hosts else command);
          command = command @ '' -p '' @ protocol;
          command = (if dports \<noteq> [] then command @ '' -dport '' @ dports else command);
          command = (if sports \<noteq> [] then command @ '' -sport '' @ sports else command)
      in command @ '' -j DROP'')"

text \<open>One pass of the loop of \<open>rules\<close>: the rules a target adds, or the error.\<close>

definition target_rules ::
  "'e CmdRunner \<Rightarrow> BlackholeTarget \<Rightarrow> call list \<Rightarrow> ('e error + string list) \<times> call list" where
  "target_rules run target log =
     (if Host target = [] \<and> DstPorts target = [] \<and> SrcPorts target = []
      then (Inl (Error ''Must specify at least one of Host, DstPorts, and or SrcPorts.''), log)
      else
        (case resolve_hosts run (Host target) log of
           (Inl err, log') \<Rightarrow> (Inl err, log')
         | (Inr hosts, log') \<Rightarrow>
        (case direction_of (Direction target) of
           Inl err \<Rightarrow> (Inl err, log')
         | Inr direction \<Rightarrow>
        (case protocol_of (Protocol target) of
           Inl err \<Rightarrow> (Inl err, log')
         | Inr protocol \<Rightarrow>
        (case ports_of (DstPorts target) of
           Inl err \<Rightarrow> (Inl err, log')
         | Inr dports \<Rightarrow>
        (case ports_of (SrcPorts target) of
           Inl err \<Rightarrow> (Inl err, log')
         | Inr sports \<Rightarrow>
           (Inr ((if direction = [] \<or> direction = ''INPUT''
                  then [chain_command ''INPUT'' '' -s '' hosts protocol dports sports] else [])
               @ (if direction = [] \<or> direction = ''OUTPUT''
                  then [chain_command ''OUTPUT'' '' -d '' hosts protocol dports sports] else [])),
            log')))))))"

fun rules_loop ::
  "'e CmdRunner \<Rightarrow> BlackholeTarget list \<Rightarrow> string list \<Rightarrow> call list
     \<Rightarrow> ('e error + string list) \<times> call list" where
  "rules_loop run [] acc log = (Inr acc, log)"
| "rules_loop run (target # targets) acc log =
     (case target_rules run target log of
        (Inl err, log') \<Rightarrow> (Inl err, log')
      | (Inr rs, log') \<Rightarrow> rules_loop run targets (acc @ rs) log')"

definition rules ::
  "'e CmdRunner \<Rightarrow> BlackholeOptions \<Rightarrow> call list \<Rightarrow> ('e error + string list) \<times> call list" where
  "rules run opts log = rules_loop run (Targets opts) [] log"

section \<open>Applying and reverting\<close>

definition iptables ::
  "'e CmdRunner \<Rightarrow> string \<Rightarrow> string \<Rightarrow> call list \<Rightarrow> 'e error option \<times> call list" where
  "iptables run action rule log =
     (case RunCommand run ''iptables'' (action # Split rule CHR '' '') log of
        (Inl err, log') \<Rightarrow> (Some (WrapError err ''Shelling out to iptables''), log')
      | (Inr output, log') \<Rightarrow> (None, log'))"

text \<open>
  The two loops of \<open>Execute\<close> over the rules (lines 72 to 77 with \<open>-A\<close>, lines 84 to 89
  with \<open>-D\<close>): they return at the first error.
\<close>

fun iptables_each ::
  "'e CmdRunner \<Rightarrow> string \<Rightarrow> string list \<Rightarrow> call list \<Rightarrow> 'e error option \<times> call list" where
  "iptables_each run action [] log = (None, log)"
| "iptables_each run action (r # rs) log =
     (case iptables run action r log of
        (Some err, log') \<Rightarrow> (Some err, log')
      | (None, log') \<Rightarrow> iptables_each run action rs log')"

text \<open>
  A channel is modelled by the instant at which a receive from it first succeeds;
  \<open>None\<close> is a channel on which nothing ever arrives (a \<open>nil\<close> timeout channel, a
  stop channel that is never signalled).  The \<open>select\<close> of \<open>Execute\<close> returns when
  the first of the two is ready and blocks for ever when neither is.  When both are
  ready at the same instant Go takes either; the two branches are empty, so the model
  may take the timer.
\<close>

type_synonym chan = "nat option"

datatype wake = TimerFired | StopReceived

fun select_wait :: "chan \<Rightarrow> chan \<Rightarrow> wake option" where
  "select_wait None None = None"
| "select_wait (Some t) None = Some TimerFired"
| "select_wait None (Some s) = Some StopReceived"
| "select_wait (Some t) (Some s) = Some (if s < t then StopReceived else TimerFired)"

text \<open>
  What a call of \<open>Execute\<close> comes to: it returns an error or \<open>nil\<close>, or it never
  returns because it waits in the \<open>select\<close> for ever.
\<close>

datatype 'e outcome = Returned "'e error option" | Blocked

text \<open>
  \<open>NewOptionalTimeoutCh\<close> is a function of the package that is not in this file; it is a
  parameter.  The result is the outcome and the invocations the runner received.
\<close>

definition Execute ::
  "(string \<Rightarrow> 'e error + chan) \<Rightarrow> 'e CmdRunner \<Rightarrow> BlackholeOptions \<Rightarrow> chan
     \<Rightarrow> 'e outcome \<times> call list" where
  "Execute NewOptionalTimeoutCh run opts stopCh =
     (case NewOptionalTimeoutCh (Timeout opts) of
        Inl err \<Rightarrow> (Returned (Some err), [])
      | Inr timeoutCh \<Rightarrow>
     (case rules run opts [] of
        (Inl err, log1) \<Rightarrow> (Returned (Some err), log1)
      | (Inr rs, log1) \<Rightarrow>
     (case iptables_each run ''-A'' rs log1 of
        (Some err, log2) \<Rightarrow> (Returned (Some err), log2)
      | (None, log2) \<Rightarrow>
     (case select_wait timeoutCh stopCh of
        None \<Rightarrow> (Blocked, log2)
      | Some w \<Rightarrow>
     (case iptables_each run ''-D'' rs log2 of
        (err, log3) \<Rightarrow> (Returned err, log3))))))"

section \<open>Notions of the specification\<close>

text \<open>
  The invocation of the firewall command that applies (\<open>-A\<close>) or reverts (\<open>-D\<close>) a
  rule: the action, then the words of the rule.
\<close>

definition iptables_call :: "string \<Rightarrow> string \<Rightarrow> call" where
  "iptables_call action rule = (''iptables'', action # Split rule CHR '' '')"

text \<open>The hosts of a rule as the specification has them: joined by commas.\<close>

fun comma_join :: "string list \<Rightarrow> string" where
  "comma_join [] = []"
| "comma_join [h] = h"
| "comma_join (h # g # hs) = h @ '','' @ comma_join (g # hs)"

text \<open>
  A port specification in the words of the specification: a decimal port, or two of
  them with a colon between.
\<close>

definition all_digits :: "string \<Rightarrow> bool" where
  "all_digits s = (s \<noteq> [] \<and> list_all (in_cls Digit) s)"

definition is_port_spec :: "string \<Rightarrow> bool" where
  "is_port_spec s =
     (all_digits s \<or>
      (all_digits (takeWhile (\<lambda>c. c \<noteq> CHR '':'') s) \<and>
       all_digits (drop 1 (dropWhile (\<lambda>c. c \<noteq> CHR '':'') s))))"

text \<open>
  The number of protocol options among the words of a rule, the words being those
  \<open>iptables\<close> passes to the command.
\<close>

definition protocol_fields :: "string \<Rightarrow> nat" where
  "protocol_fields rule = length (filter (\<lambda>w. w = ''-p'') (Split rule CHR '' ''))"

text \<open>
  The shape of a rule: it begins with the name of its chain and ends with the action.
\<close>

definition rule_shape :: "string \<Rightarrow> bool" where
  "rule_shape r =
     ((take 5 r = ''INPUT'' \<or> take 6 r = ''OUTPUT'')
      \<and> drop (length r - 8) r = '' -j DROP'')"

text \<open>
  The addresses of a text in the words of the specification.  An address is four
  groups of one to three decimal digits with a dot after each of the first three, the
  last group taking up to three of the digits that follow, and then, if a slash follows,
  the slash with up to two digits behind it.  \<open>literal_rest s\<close> is the text behind the
  address with which \<open>s\<close> begins, if it begins with one.  \<open>ip_literals\<close> reads a text
  from the left: where an address begins it takes it and goes on behind it (\<open>scan\<close>
  counts down the characters of the address it has just taken), elsewhere it moves on
  by one character.
\<close>

definition digits :: "string \<Rightarrow> nat" where
  "digits s = length (takeWhile (in_cls Digit) s)"

definition octet_dot :: "string \<Rightarrow> string option" where
  "octet_dot s =
     (let n = digits s
      in if 1 \<le> n \<and> n \<le> 3 \<and> take 1 (drop n s) = ''.'' then Some (drop (Suc n) s) else None)"

definition last_octet :: "string \<Rightarrow> string option" where
  "last_octet s = (if digits s = 0 then None else Some (drop (min 3 (digits s)) s))"

definition mask_rest :: "string \<Rightarrow> string" where
  "mask_rest t =
     (if take 1 t = ''/'' then drop (Suc (min 2 (digits (drop 1 t)))) t else t)"

definition literal_rest :: "string \<Rightarrow> string option" where
  "literal_rest s =
     (case octet_dot s of None \<Rightarrow> None | Some s1 \<Rightarrow>
      (case octet_dot s1 of None \<Rightarrow> None | Some s2 \<Rightarrow>
       (case octet_dot s2 of None \<Rightarrow> None | Some s3 \<Rightarrow>
        (case last_octet s3 of None \<Rightarrow> None | Some s4 \<Rightarrow> Some (mask_rest s4)))))"

fun scan :: "nat \<Rightarrow> string \<Rightarrow> string list" where
  "scan n [] = []"
| "scan (Suc n) (c # cs) = scan n cs"
| "scan 0 (c # cs) =
     (case literal_rest (c # cs) of
        None \<Rightarrow> scan 0 cs
      | Some rest \<Rightarrow>
          take (length (c # cs) - length rest) (c # cs)
            # scan (length (c # cs) - length rest - 1) cs)"

definition ip_literals :: "string \<Rightarrow> string list" where
  "ip_literals s = scan 0 s"

text \<open>The first element of a list, if there is one.\<close>

definition first_of :: "'a list \<Rightarrow> 'a option" where
  "first_of xs = (case xs of [] \<Rightarrow> None | x # _ \<Rightarrow> Some x)"

text \<open>
  A word in any letter case.  \<open>letter_case w d\<close> is the plain reading: \<open>d\<close> is the
  word \<open>w\<close> up to the case of the letters \<open>a\<close> to \<open>z\<close>.  \<open>spelt\<close> is the reading
  of the code: \<open>d\<close> is made of one form of each letter of \<open>w\<close>, and the forms of a
  letter are the texts that the case mapping takes to it; besides the letter in its two
  cases these are U+0131 for \<open>I\<close> and U+017F for \<open>S\<close> under \<open>ToUpper\<close>, and U+0130
  for \<open>i\<close> and U+212A for \<open>k\<close> under \<open>ToLower\<close>.
\<close>

definition letter_case :: "string \<Rightarrow> string \<Rightarrow> bool" where
  "letter_case w d = (map upper_char d = map upper_char w)"

definition upper_forms :: "char \<Rightarrow> string list" where
  "upper_forms u =
     [[u], [lower_char u]] @ (if u = CHR ''I'' then [dotless_i] else [])
       @ (if u = CHR ''S'' then [long_s] else [])"

definition lower_forms :: "char \<Rightarrow> string list" where
  "lower_forms l =
     [[l], [upper_char l]] @ (if l = CHR ''i'' then [dotted_I] else [])
       @ (if l = CHR ''k'' then [kelvin_sign] else [])"

fun spelt :: "(char \<Rightarrow> string list) \<Rightarrow> string \<Rightarrow> string \<Rightarrow> bool" where
  "spelt forms [] d = (d = [])"
| "spelt forms (u # us) d =
     list_ex (\<lambda>p. take (length p) d = p \<and> spelt forms us (drop (length p) d)) (forms u)"

declare spelt.simps(2) [simp del]

text \<open>
  The targets that the compilation refuses whatever the runner does: a target with no
  host and no ports; a direction that is not blank and spells none of the three words;
  a protocol that is not blank and spells none of the four words; ports that do not
  end in a decimal digit, so that no port and no range of ports stands at their end.
\<close>

definition empty_target :: "BlackholeTarget \<Rightarrow> bool" where
  "empty_target t = (Host t = [] \<and> DstPorts t = [] \<and> SrcPorts t = [])"

definition bad_direction :: "string \<Rightarrow> bool" where
  "bad_direction d =
     (d \<noteq> [] \<and> \<not> spelt upper_forms ''INPUT'' d \<and> \<not> spelt upper_forms ''OUTPUT'' d
      \<and> \<not> spelt upper_forms ''BOTH'' d)"

definition bad_protocol :: "string \<Rightarrow> bool" where
  "bad_protocol p =
     (p \<noteq> [] \<and> \<not> spelt lower_forms ''tcp'' p \<and> \<not> spelt lower_forms ''udp'' p
      \<and> \<not> spelt lower_forms ''icmp'' p \<and> \<not> spelt lower_forms ''all'' p)"

definition bad_port :: "string \<Rightarrow> bool" where
  "bad_port s = (s \<noteq> [] \<and> \<not> in_cls Digit (last s))"

definition invalid_target :: "BlackholeTarget \<Rightarrow> bool" where
  "invalid_target t =
     (empty_target t \<or> bad_direction (Direction t) \<or> bad_protocol (Protocol t)
      \<or> bad_port (DstPorts t) \<or> bad_port (SrcPorts t))"

text \<open>
  A lookup that fails in the state \<open>log\<close> of the runner: the command fails, or its
  output holds no address.
\<close>

definition lookup_fails :: "'e CmdRunner \<Rightarrow> call list \<Rightarrow> string \<Rightarrow> bool" where
  "lookup_fails run log host =
     (case run log ''dig'' [''+short'', host] of
        Inl err \<Rightarrow> True
      | Inr output \<Rightarrow> ip_literals output = [])"

text \<open>
  Options used to show the theorems at work: an address block to be cut off in both
  directions and outgoing traffic to a port.
\<close>

definition example_opts :: BlackholeOptions where
  "example_opts =
     \<lparr>Type = ''Blackhole'', Timeout = [],
      Targets = [\<lparr>Host = ''192.168.0.0/24'', Direction = ''both'', Protocol = [],
                  DstPorts = [], SrcPorts = []\<rparr>,
                 \<lparr>Host = [], Direction = ''Output'', Protocol = ''TCP'',
                  DstPorts = ''8080'', SrcPorts = []\<rparr>]\<rparr>"

text \<open>
  More inputs used to show the theorems at work: a runner that fails every command,
  one that succeeds with empty output, a timeout without timer, a direction written
  with U+0131 for the \<open>I\<close> of \<open>INPUT\<close>, an answer of the lookup command with
  text around three addresses, options whose second target has bad ports or a
  host name to look up, and options with ports that only end in a port.
\<close>

definition failing_runner :: "unit CmdRunner" where
  "failing_runner log name args = Inl ()"

definition ok_runner :: "unit CmdRunner" where
  "ok_runner log name args = Inr []"

definition no_timer :: "string \<Rightarrow> unit error + chan" where
  "no_timer timeout = Inr None"

definition dotless_direction :: string where
  "dotless_direction = dotless_i @ ''nput''"

definition dotless_opts :: BlackholeOptions where
  "dotless_opts =
     \<lparr>Type = ''Blackhole'', Timeout = [],
      Targets = [\<lparr>Host = ''10.0.0.5'', Direction = dotless_direction, Protocol = [],
                  DstPorts = [], SrcPorts = []\<rparr>]\<rparr>"

definition dig_answer :: string where
  "dig_answer =
     ''example.com. 93.184.216.34'' @ [CHR 0x0A] @ ''10.1.2.0/24 1234.5.6.7890'' @ [CHR 0x0A]"

definition bad_port_opts :: BlackholeOptions where
  "bad_port_opts =
     \<lparr>Type = ''Blackhole'', Timeout = [],
      Targets = [\<lparr>Host = [], Direction = [], Protocol = [], DstPorts = ''8080'',
                  SrcPorts = []\<rparr>,
                 \<lparr>Host = [], Direction = [], Protocol = [], DstPorts = ''abc'',
                  SrcPorts = []\<rparr>]\<rparr>"

definition unresolved_opts :: BlackholeOptions where
  "unresolved_opts =
     \<lparr>Type = ''Blackhole'', Timeout = [],
      Targets = [\<lparr>Host = [], Direction = [], Protocol = [], DstPorts = ''8080'',
                  SrcPorts = []\<rparr>,
                 \<lparr>Host = ''example.com'', Direction = [], Protocol = [], DstPorts = [],
                  SrcPorts = []\<rparr>]\<rparr>"

definition prefixed_port_opts :: BlackholeOptions where
  "prefixed_port_opts =
     \<lparr>Type = ''Blackhole'', Timeout = [],
      Targets = [\<lparr>Host = [], Direction = ''INPUT'', Protocol = [], DstPorts = ''abc80'',
                  SrcPorts = []\<rparr>]\<rparr>"

section \<open>Evaluating the patterns\<close>

lemma ip_match_10_0_0_5: "MatchString ipPattern ''10.0.0.5''"
  by code_simp

lemma ip_find_all_10_0_0_5: "FindAllString ipPattern ''10.0.0.5'' = [''10.0.0.5'']"
  by code_simp

lemma ip_match_block: "MatchString ipPattern ''192.168.0.0/24''"
  by code_simp

lemma ip_find_all_block: "FindAllString ipPattern ''192.168.0.0/24'' = [''192.168.0.0/24'']"
  by code_simp

lemma port_match_8080: "MatchString portPattern ''8080''"
  by code_simp

lemma ip_match_two: "MatchString ipPattern ''10.0.0.1 10.0.0.2''"
  by code_simp

lemma ip_find_all_two: "FindAllString ipPattern ''10.0.0.1 10.0.0.2'' = [''10.0.0.1'', ''10.0.0.2'']"
  by code_simp

lemma ToUpper_input: "ToUpper ''input'' = ''INPUT''"
  by code_simp

lemma port_match_abc80: "MatchString portPattern ''abc80''"
  by code_simp

lemma not_port_spec_abc80: "\<not> is_port_spec ''abc80''"
  by code_simp

lemma port_match_injected: "MatchString portPattern ''1 -p tcp 2''"
  by code_simp

lemma protocol_fields_injected: "protocol_fields ''INPUT -p all -dport 1 -p tcp 2 -j DROP'' = 2"
  by code_simp

lemma port_no_match_abc: "\<not> MatchString portPattern ''abc''"
  by code_simp

lemma ToUpper_words:
  "ToUpper ''INPUT'' = ''INPUT''" "ToUpper ''OUTPUT'' = ''OUTPUT''" "ToUpper ''BOTH'' = ''BOTH''"
  by code_simp+

lemma ToLower_words:
  "ToLower ''tcp'' = ''tcp''" "ToLower ''udp'' = ''udp''" "ToLower ''icmp'' = ''icmp''"
  "ToLower ''all'' = ''all''"
  by code_simp+

lemma dotless_direction_not_words:
  "dotless_direction \<noteq> []" "\<not> letter_case ''INPUT'' dotless_direction"
  "\<not> letter_case ''OUTPUT'' dotless_direction" "\<not> letter_case ''BOTH'' dotless_direction"
  by code_simp+

lemma ToUpper_dotless: "ToUpper dotless_direction = ''INPUT''"
  by code_simp

lemma spelt_examples:
  "spelt upper_forms ''BOTH'' ''bOtH''" "''sideways'' \<noteq> []"
  "\<not> spelt upper_forms ''INPUT'' ''sideways''" "\<not> spelt upper_forms ''OUTPUT'' ''sideways''"
  "\<not> spelt upper_forms ''BOTH'' ''sideways''"
  by code_simp+

lemma ip_literals_example_com: "ip_literals ''example.com'' = []"
  by code_simp

lemma ip_literals_examples:
  "ip_literals [] = []" "ip_literals ''unresolvable.example'' = []"
  "ip_literals dig_answer = [''93.184.216.34'', ''10.1.2.0/24'', ''234.5.6.789'']"
  by code_simp+

lemma ip_no_match_example_com: "\<not> MatchString ipPattern ''example.com''"
  by code_simp

lemma rules_bad_port_opts:
  "rules ok_runner bad_port_opts []
   = (Inl (Error ''Invalid destination port specified abc''), [])"
  by (simp add: rules_def bad_port_opts_def target_rules_def resolve_hosts_def
      direction_of_def protocol_of_def ports_of_def port_match_8080 port_no_match_abc
      chain_command_def)

lemma rules_unresolved_opts:
  "rules failing_runner unresolved_opts []
   = (Inl (WrapError () ''resolving host name''), [(''dig'', [''+short'', ''example.com''])])"
  by (simp add: rules_def unresolved_opts_def target_rules_def resolve_hosts_def
      direction_of_def protocol_of_def ports_of_def port_match_8080
      ip_no_match_example_com dig_def RunCommand_def failing_runner_def chain_command_def)

lemma ToUpper_both: "ToUpper ''both'' = ''BOTH''"
  by code_simp

lemma ToUpper_Output: "ToUpper ''Output'' = ''OUTPUT''"
  by code_simp

lemma ToLower_TCP: "ToLower ''TCP'' = ''tcp''"
  by code_simp

lemma rules_example_opts:
  "rules run example_opts log
   = (Inr [''INPUT -s 192.168.0.0/24 -p all -j DROP'',
           ''OUTPUT -d 192.168.0.0/24 -p all -j DROP'',
           ''OUTPUT -p tcp -dport 8080 -j DROP''], log)"
  by (simp add: rules_def example_opts_def target_rules_def resolve_hosts_def ip_match_block
      ip_find_all_block port_match_8080 direction_of_def protocol_of_def ports_of_def
      ToUpper_both ToUpper_Output ToLower_TCP chain_command_def)

section \<open>The rules of a single host\<close>

text \<open>
  C4.  The options whose only target has the host \<open>10.0.0.5\<close> and every other field
  empty compile, with any runner and without any invocation of it, to exactly the two
  rules \<open>INPUT -s 10.0.0.5 -p all -j DROP\<close> and \<open>OUTPUT -d 10.0.0.5 -p all -j DROP\<close>, in
  this order.
\<close>

theorem rules_host_only_default:
  "rules run \<lparr>Type = ty, Timeout = tm,
              Targets = [\<lparr>Host = ''10.0.0.5'', Direction = [], Protocol = [],
                          DstPorts = [], SrcPorts = []\<rparr>]\<rparr> log
   = (Inr [''INPUT -s 10.0.0.5 -p all -j DROP'', ''OUTPUT -d 10.0.0.5 -p all -j DROP''], log)"
  by (simp add: rules_def target_rules_def resolve_hosts_def ip_match_10_0_0_5
      ip_find_all_10_0_0_5 direction_of_def protocol_of_def ports_of_def chain_command_def)

section \<open>The invocations of a run\<close>

text \<open>
  Compiling the rules only ever runs \<open>dig\<close>: every invocation it adds to the log has
  that name.
\<close>

lemma dig_log: "dig run h log = (res, log') \<Longrightarrow> log' = log @ [(''dig'', [''+short'', h])]"
  by (auto simp: dig_def RunCommand_def Let_def split: sum.splits if_splits)

lemma resolve_hosts_log:
  "resolve_hosts run h log = (res, log') \<Longrightarrow> \<exists>new. log' = log @ new \<and> (\<forall>c \<in> set new. fst c = ''dig'')"
  by (auto simp: resolve_hosts_def split: if_splits dest!: dig_log)

lemma target_rules_log:
  "target_rules run t log = (res, log') \<Longrightarrow> \<exists>new. log' = log @ new \<and> (\<forall>c \<in> set new. fst c = ''dig'')"
  unfolding target_rules_def
  by (auto split: if_splits prod.splits sum.splits dest!: resolve_hosts_log)

lemma rules_loop_log:
  "rules_loop run ts acc log = (res, log') \<Longrightarrow> \<exists>new. log' = log @ new \<and> (\<forall>c \<in> set new. fst c = ''dig'')"
proof (induction ts arbitrary: acc log)
  case Nil
  then show ?case by simp
next
  case (Cons t ts)
  obtain r1 l1 where t: "target_rules run t log = (r1, l1)" by (cases "target_rules run t log")
  from target_rules_log [OF t] obtain n1 where n1: "l1 = log @ n1" "\<forall>c \<in> set n1. fst c = ''dig''"
    by blast
  show ?case
  proof (cases r1)
    case (Inl e)
    with Cons.prems t n1 show ?thesis by auto
  next
    case (Inr rs)
    with Cons.prems t have "rules_loop run ts (acc @ rs) l1 = (res, log')" by simp
    from Cons.IH [OF this] obtain n2 where "log' = l1 @ n2" "\<forall>c \<in> set n2. fst c = ''dig''"
      by blast
    with n1 show ?thesis by auto
  qed
qed

lemma rules_log:
  "rules run opts [] = (res, log') \<Longrightarrow> \<forall>c \<in> set log'. fst c = ''dig''"
  unfolding rules_def by (drule rules_loop_log) auto


text \<open>
  The loop over the rules, when every invocation succeeds and when the invocation for
  the rule at index \<open>k\<close> is the first to fail.
\<close>

lemma iptables_each_ok:
  "(\<forall>j < length rs. \<exists>out. run (log @ map (iptables_call action) (take j rs)) ''iptables''
        (action # Split (rs ! j) CHR '' '') = Inr out)
   \<Longrightarrow> iptables_each run action rs log = (None, log @ map (iptables_call action) rs)"
proof (induction rs arbitrary: log)
  case Nil
  then show ?case by simp
next
  case (Cons r rs)
  from Cons.prems have "\<exists>out. run log ''iptables'' (action # Split r CHR '' '') = Inr out"
    by fastforce
  then have step: "iptables run action r log = (None, log @ [iptables_call action r])"
    by (auto simp: iptables_def RunCommand_def iptables_call_def)
  have "\<forall>j < length rs. \<exists>out. run ((log @ [iptables_call action r])
           @ map (iptables_call action) (take j rs)) ''iptables''
           (action # Split (rs ! j) CHR '' '') = Inr out"
  proof (intro allI impI)
    fix j assume "j < length rs"
    then have "Suc j < length (r # rs)" by simp
    with Cons.prems have "\<exists>out. run (log @ map (iptables_call action) (take (Suc j) (r # rs)))
        ''iptables'' (action # Split ((r # rs) ! Suc j) CHR '' '') = Inr out"
      by blast
    then show "\<exists>out. run ((log @ [iptables_call action r])
           @ map (iptables_call action) (take j rs)) ''iptables''
           (action # Split (rs ! j) CHR '' '') = Inr out"
      by simp
  qed
  from Cons.IH [OF this] step show ?case by simp
qed

lemma iptables_each_fail:
  "k < length rs \<Longrightarrow>
   (\<forall>j < k. \<exists>out. run (log @ map (iptables_call action) (take j rs)) ''iptables''
        (action # Split (rs ! j) CHR '' '') = Inr out) \<Longrightarrow>
   run (log @ map (iptables_call action) (take k rs)) ''iptables''
        (action # Split (rs ! k) CHR '' '') = Inl e
   \<Longrightarrow> iptables_each run action rs log
       = (Some (WrapError e ''Shelling out to iptables''),
          log @ map (iptables_call action) (take (Suc k) rs))"
proof (induction rs arbitrary: log k)
  case Nil
  then show ?case by simp
next
  case (Cons r rs)
  show ?case
  proof (cases k)
    case 0
    with Cons.prems show ?thesis
      by (simp add: iptables_def RunCommand_def iptables_call_def)
  next
    case (Suc k')
    with Cons.prems have "\<exists>out. run log ''iptables'' (action # Split r CHR '' '') = Inr out"
      by fastforce
    then have step: "iptables run action r log = (None, log @ [iptables_call action r])"
      by (auto simp: iptables_def RunCommand_def iptables_call_def)
    have k': "k' < length rs" using Cons.prems Suc by simp
    have ok: "\<forall>j < k'. \<exists>out. run ((log @ [iptables_call action r])
           @ map (iptables_call action) (take j rs)) ''iptables''
           (action # Split (rs ! j) CHR '' '') = Inr out"
    proof (intro allI impI)
      fix j assume "j < k'"
      then have "Suc j < k" using Suc by simp
      with Cons.prems(2) have "\<exists>out. run (log @ map (iptables_call action) (take (Suc j) (r # rs)))
          ''iptables'' (action # Split ((r # rs) ! Suc j) CHR '' '') = Inr out"
        by blast
      then show "\<exists>out. run ((log @ [iptables_call action r])
           @ map (iptables_call action) (take j rs)) ''iptables''
           (action # Split (rs ! j) CHR '' '') = Inr out"
        by simp
    qed
    have bad: "run ((log @ [iptables_call action r]) @ map (iptables_call action) (take k' rs))
        ''iptables'' (action # Split (rs ! k') CHR '' '') = Inl e"
      using Cons.prems(3) Suc by simp
    from Cons.IH [OF k' ok bad] step Suc show ?thesis by simp
  qed
qed

section \<open>The life cycle\<close>

text \<open>
  C1.  Let the options compile to the rules \<open>rs\<close> (say \<open>N\<close> of them), let the stop
  channel be signalled before the timer fires, if there is a timer at all, and let every
  invocation of \<open>iptables\<close> succeed.  Then \<open>Execute\<close> returns no error, and after
  the lookups of the compilation the runner receives exactly \<open>N\<close> invocations with
  \<open>-A\<close>, one for each rule in compiled order, followed by exactly \<open>N\<close> invocations
  with \<open>-D\<close> for the same rules in the same order, not reversed.
\<close>

theorem Execute_applies_then_reverts_in_order:
  assumes "NewOptionalTimeoutCh (Timeout opts) = Inr timeoutCh"
    and "rules run opts [] = (Inr rs, log0)"
    and "stopCh = Some s"
    and "\<forall>t. timeoutCh = Some t \<longrightarrow> s < t"
    and "\<forall>log args. \<exists>out. run log ''iptables'' args = Inr out"
  shows "Execute NewOptionalTimeoutCh run opts stopCh
         = (Returned None,
            log0 @ map (iptables_call ''-A'') rs @ map (iptables_call ''-D'') rs)
       \<and> (\<forall>c \<in> set log0. fst c = ''dig'')
       \<and> select_wait timeoutCh stopCh = Some StopReceived"
proof -
  have a: "iptables_each run ''-A'' rs log0 = (None, log0 @ map (iptables_call ''-A'') rs)"
    using assms(5) by (intro iptables_each_ok) blast
  have d: "iptables_each run ''-D'' rs (log0 @ map (iptables_call ''-A'') rs)
           = (None, (log0 @ map (iptables_call ''-A'') rs) @ map (iptables_call ''-D'') rs)"
    using assms(5) by (intro iptables_each_ok) blast
  have w: "select_wait timeoutCh stopCh = Some StopReceived"
    using assms(3,4) by (cases timeoutCh) auto
  have "Execute NewOptionalTimeoutCh run opts stopCh
         = (Returned None,
            log0 @ map (iptables_call ''-A'') rs @ map (iptables_call ''-D'') rs)"
    by (simp add: Execute_def assms(1,2) a d w)
  with w rules_log [OF assms(2)] show ?thesis by blast
qed

theorem Execute_applies_then_reverts_in_order_witness:
  "Execute (\<lambda>timeout. Inr None) (\<lambda>log name args. Inr [] :: unit + string) example_opts (Some 0)
   = (Returned None,
      [(''iptables'', [''-A'', ''INPUT'', ''-s'', ''192.168.0.0/24'', ''-p'', ''all'', ''-j'', ''DROP'']),
       (''iptables'', [''-A'', ''OUTPUT'', ''-d'', ''192.168.0.0/24'', ''-p'', ''all'', ''-j'', ''DROP'']),
       (''iptables'', [''-A'', ''OUTPUT'', ''-p'', ''tcp'', ''-dport'', ''8080'', ''-j'', ''DROP'']),
       (''iptables'', [''-D'', ''INPUT'', ''-s'', ''192.168.0.0/24'', ''-p'', ''all'', ''-j'', ''DROP'']),
       (''iptables'', [''-D'', ''OUTPUT'', ''-d'', ''192.168.0.0/24'', ''-p'', ''all'', ''-j'', ''DROP'']),
       (''iptables'', [''-D'', ''OUTPUT'', ''-p'', ''tcp'', ''-dport'', ''8080'', ''-j'', ''DROP''])])"
  using Execute_applies_then_reverts_in_order
    [of "\<lambda>timeout. Inr None" example_opts None "\<lambda>log name args. Inr [] :: unit + string"
        "[''INPUT -s 192.168.0.0/24 -p all -j DROP'',
          ''OUTPUT -d 192.168.0.0/24 -p all -j DROP'',
          ''OUTPUT -p tcp -dport 8080 -j DROP'']" "[]" "Some 0" 0]
  by (simp add: rules_example_opts iptables_call_def)

text \<open>
  C2.  Let the options compile to the rules \<open>rs\<close>.  If the invocation that applies the
  rule at index \<open>k\<close> (counting from zero, so the rule number \<open>k + 1\<close>) is the first
  to fail, with the error \<open>e\<close> of the runner, then \<open>Execute\<close> returns \<open>e\<close>
  wrapped in the message of \<open>iptables\<close>; the runner has received the \<open>-A\<close>
  invocations for the \<open>k\<close> rules before it, which succeeded, then the failing one, and
  nothing after it: no further \<open>-A\<close> and no \<open>-D\<close> at all.
\<close>

theorem Execute_apply_failure:
  assumes "NewOptionalTimeoutCh (Timeout opts) = Inr timeoutCh"
    and "rules run opts [] = (Inr rs, log0)"
    and "k < length rs"
    and "\<forall>j < k. \<exists>out. run (log0 @ map (iptables_call ''-A'') (take j rs)) ''iptables''
                          (''-A'' # Split (rs ! j) CHR '' '') = Inr out"
    and "run (log0 @ map (iptables_call ''-A'') (take k rs)) ''iptables''
             (''-A'' # Split (rs ! k) CHR '' '') = Inl e"
  shows "Execute NewOptionalTimeoutCh run opts stopCh
         = (Returned (Some (WrapError e ''Shelling out to iptables'')),
            log0 @ map (iptables_call ''-A'') (take k rs) @ [iptables_call ''-A'' (rs ! k)])
       \<and> (\<forall>c \<in> set log0. fst c = ''dig'')
       \<and> (\<forall>r. iptables_call ''-D'' r \<notin> set (snd (Execute NewOptionalTimeoutCh run opts stopCh)))"
proof -
  have a: "iptables_each run ''-A'' rs log0
           = (Some (WrapError e ''Shelling out to iptables''),
              log0 @ map (iptables_call ''-A'') (take (Suc k) rs))"
    using assms(3,4,5) by (rule iptables_each_fail)
  have t: "take (Suc k) rs = take k rs @ [rs ! k]"
    using assms(3) by (rule take_Suc_conv_app_nth)
  have ex: "Execute NewOptionalTimeoutCh run opts stopCh
         = (Returned (Some (WrapError e ''Shelling out to iptables'')),
            log0 @ map (iptables_call ''-A'') (take k rs) @ [iptables_call ''-A'' (rs ! k)])"
    by (simp add: Execute_def assms(1,2) a t)
  have digs: "\<forall>c \<in> set log0. fst c = ''dig''"
    using rules_log [OF assms(2)] .
  have "\<forall>r. iptables_call ''-D'' r \<notin> set (snd (Execute NewOptionalTimeoutCh run opts stopCh))"
    using digs unfolding ex by (auto simp: iptables_call_def)
  with ex digs show ?thesis by blast
qed

theorem Execute_apply_failure_witness:
  "Execute (\<lambda>timeout. Inr None)
     (\<lambda>log name args. if length log = 1 then Inl () else Inr []) example_opts (Some 0)
   = (Returned (Some (WrapError () ''Shelling out to iptables'')),
      [(''iptables'', [''-A'', ''INPUT'', ''-s'', ''192.168.0.0/24'', ''-p'', ''all'', ''-j'', ''DROP'']),
       (''iptables'', [''-A'', ''OUTPUT'', ''-d'', ''192.168.0.0/24'', ''-p'', ''all'', ''-j'', ''DROP''])])"
  using Execute_apply_failure
    [of "\<lambda>timeout. Inr None" example_opts None
        "\<lambda>log name args. if length log = 1 then Inl () else Inr []"
        "[''INPUT -s 192.168.0.0/24 -p all -j DROP'',
          ''OUTPUT -d 192.168.0.0/24 -p all -j DROP'',
          ''OUTPUT -p tcp -dport 8080 -j DROP'']" "[]" 1 "()" "Some 0"]
  by (simp add: rules_example_opts iptables_call_def)

text \<open>
  C10.  Options without targets, whose timeout \<open>NewOptionalTimeoutCh\<close> accepts,
  compile to no rule without any invocation of the runner.  \<open>Execute\<close> then invokes
  nothing, waits in the \<open>select\<close>, and returns no error as soon as the timer fires or
  the stop channel is signalled; it stays blocked in the one case in which there is no
  timer and no stop signal ever.
\<close>

theorem Execute_no_targets:
  assumes "Targets opts = []"
    and "NewOptionalTimeoutCh (Timeout opts) = Inr timeoutCh"
  shows "rules run opts [] = (Inr [], [])
       \<and> Execute NewOptionalTimeoutCh run opts stopCh
         = (if timeoutCh = None \<and> stopCh = None then Blocked else Returned None, [])"
proof -
  have r: "rules run opts [] = (Inr [], [])"
    by (simp add: rules_def assms(1))
  have "select_wait timeoutCh stopCh = None \<longleftrightarrow> timeoutCh = None \<and> stopCh = None"
    by (cases timeoutCh; cases stopCh) simp_all
  then have "Execute NewOptionalTimeoutCh run opts stopCh
         = (if timeoutCh = None \<and> stopCh = None then Blocked else Returned None, [])"
    by (auto simp: Execute_def assms(2) r split: option.splits)
  with r show ?thesis by blast
qed

theorem Execute_no_targets_witness:
  "Execute (\<lambda>timeout. Inr (Some 5)) (\<lambda>log name args. Inl ())
     \<lparr>Type = ''Blackhole'', Timeout = ''5s'', Targets = []\<rparr> None = (Returned None, [])"
  using Execute_no_targets
    [of "\<lparr>Type = ''Blackhole'', Timeout = ''5s'', Targets = []\<rparr>"
        "\<lambda>timeout. Inr (Some 5)" "Some 5" "\<lambda>log name args. Inl ()" None]
  by simp

section \<open>The scan for addresses\<close>

text \<open>
  \<open>FindAllString\<close> with \<open>ipPattern\<close> finds the addresses of a text as the
  specification describes them.  A group of digits of the pattern offers its matches
  longest first, and before a dot only the whole run of digits can be taken; the last
  group and the digits behind the slash take all they can get.  So the first match at a
  position is the address that begins there, and the search from the left is the
  reading of \<open>ip_literals\<close>.
\<close>

lemma digits_Nil [simp]: "digits [] = 0"
  by (simp add: digits_def)

lemma digits_Cons:
  "digits (c # cs) = (if in_cls Digit c then Suc (digits cs) else 0)"
  by (simp add: digits_def del: in_cls.simps)

lemma ms_One_Digit:
  "ms (One Digit) s = (if digits s = 0 then [] else [drop 1 s])"
  by (cases s) (simp_all add: digits_Cons del: in_cls.simps)

lemma digits_drop1: "digits s \<noteq> 0 \<Longrightarrow> digits (drop 1 s) = digits s - 1"
  by (cases s) (simp_all add: digits_Cons del: in_cls.simps split: if_splits)

lemma digits_drop_Suc: "digits s \<noteq> 0 \<Longrightarrow> digits (drop (Suc k) s) = digits (drop k (drop 1 s))"
  by (cases s) simp_all

lemma ms_octet:
  "ms octet s =
     (if digits s = 0 then []
      else if digits s = 1 then [drop 1 s]
      else if digits s = 2 then [drop 2 s, drop 1 s]
      else [drop 3 s, drop 2 s, drop 1 s])"
proof -
  have D: "ms (One Digit) t = (if digits t = 0 then [] else [drop 1 t])" for t
    by (rule ms_One_Digit)
  have o: "ms octet s =
     (if digits s = 0 then []
      else (if digits (drop 1 s) = 0 then []
            else (if digits (drop 1 (drop 1 s)) = 0 then [] else [drop 1 (drop 1 (drop 1 s))])
                 @ [drop 1 (drop 1 s)])
           @ [drop 1 s])"
    unfolding octet_def rep_1_3_def
    by (simp add: D del: ms.simps(1) drop_drop)
  consider (0) "digits s = 0" | (1) "digits s = 1" | (2) "digits s = 2" | (3) "3 \<le> digits s"
    by linarith
  then show ?thesis
  proof cases
    case 0
    then show ?thesis unfolding o by simp
  next
    case 1
    then have "digits (drop 1 s) = 0" using digits_drop1 [of s] by simp
    with 1 show ?thesis unfolding o by simp
  next
    case 2
    then have a: "digits (drop 1 s) = 1" using digits_drop1 [of s] by simp
    then have "digits (drop 1 (drop 1 s)) = 0" using digits_drop1 [of "drop 1 s"] by simp
    with 2 a show ?thesis unfolding o by (simp add: numeral_2_eq_2)
  next
    case 3
    then have a: "digits (drop 1 s) = digits s - 1" using digits_drop1 [of s] by simp
    with 3 have "digits (drop 1 s) \<noteq> 0" by simp
    from digits_drop1 [OF this] a 3 have b: "digits (drop 1 (drop 1 s)) \<noteq> 0" by simp
    from 3 a b show ?thesis unfolding o by (simp add: numeral_2_eq_2 numeral_3_eq_3)
  qed
qed

lemma dot_not_digit: "\<not> in_cls Digit CHR ''.''"
  by simp

lemma ms_Lit_Seq:
  "ms (Seq (One (Lit a)) r) t = (if take 1 t = [a] then ms r (drop 1 t) else [])"
  by (cases t) simp_all

lemma digit_at:
  assumes "k < digits s"
  shows "\<exists>c rest. drop k s = c # rest \<and> in_cls Digit c"
proof -
  let ?D = "takeWhile (in_cls Digit) s"
  from assms have k: "k < length ?D" by (simp add: digits_def)
  then have "?D ! k \<in> set ?D" by (rule nth_mem)
  then have d: "in_cls Digit (?D ! k)" by (rule set_takeWhileD [THEN conjunct2])
  from k have e: "?D ! k = s ! k" by (rule takeWhile_nth)
  from k length_takeWhile_le [of "in_cls Digit" s] have "k < length s" by linarith
  then have "drop k s = s ! k # drop (Suc k) s" by (rule Cons_nth_drop_Suc [symmetric])
  with d e show ?thesis by metis
qed

lemma no_dot_in_digits: "k < digits s \<Longrightarrow> take 1 (drop k s) \<noteq> ''.''"
proof -
  assume "k < digits s"
  from digit_at [OF this] obtain c rest where "drop k s = c # rest" "in_cls Digit c" by blast
  with dot_not_digit show ?thesis by (auto simp del: in_cls.simps)
qed

lemma ms_octet_dot:
  "ms (Seq octet (Seq (One (Lit CHR ''.'')) r)) s =
     (case octet_dot s of None \<Rightarrow> [] | Some s1 \<Rightarrow> ms r s1)"
proof -
  have f: "ms (Seq (One (Lit CHR ''.'')) r) (drop k s) = []" if "k < digits s" for k
    using no_dot_in_digits [OF that] by (simp only: ms_Lit_Seq if_False)
  have g: "ms (Seq (One (Lit CHR ''.'')) r) (drop k s)
           = (if take 1 (drop k s) = ''.'' then ms r (drop (Suc k) s) else [])" for k
    by (simp only: ms_Lit_Seq drop_drop) simp
  have s: "ms (Seq octet (Seq (One (Lit CHR ''.'')) r)) s
           = concat (map (ms (Seq (One (Lit CHR ''.'')) r)) (ms octet s))"
    by (rule ms.simps(3))
  consider (0) "digits s = 0" | (1) "digits s = 1" | (2) "digits s = 2" | (3) "digits s = 3"
    | (4) "4 \<le> digits s"
    by linarith
  then show ?thesis
  proof cases
    case 0
    then show ?thesis unfolding s ms_octet by (simp add: octet_dot_def)
  next
    case 1
    then show ?thesis unfolding s ms_octet using g [of 1]
      by (simp add: octet_dot_def del: ms.simps)
  next
    case 2
    with f [of 1] have "ms (Seq (One (Lit CHR ''.'')) r) (drop 1 s) = []" by simp
    with 2 show ?thesis unfolding s ms_octet using g [of 2]
      by (simp add: octet_dot_def del: ms.simps)
  next
    case 3
    with f [of 1] f [of 2] have "ms (Seq (One (Lit CHR ''.'')) r) (drop 1 s) = []"
      "ms (Seq (One (Lit CHR ''.'')) r) (drop 2 s) = []" by simp_all
    with 3 show ?thesis unfolding s ms_octet using g [of 3]
      by (simp add: octet_dot_def del: ms.simps)
  next
    case 4
    with f [of 1] f [of 2] f [of 3] have "ms (Seq (One (Lit CHR ''.'')) r) (drop 1 s) = []"
      "ms (Seq (One (Lit CHR ''.'')) r) (drop 2 s) = []"
      "ms (Seq (One (Lit CHR ''.'')) r) (drop 3 s) = []" by simp_all
    with 4 show ?thesis unfolding s ms_octet
      by (simp add: octet_dot_def del: ms.simps)
  qed
qed

lemma hd_ms_rep_0_2:
  "ms (rep_0_2 (One Digit)) u \<noteq> []
   \<and> hd (ms (rep_0_2 (One Digit)) u) = drop (min 2 (digits u)) u"
proof -
  have o: "ms (rep_0_2 (One Digit)) u =
     (if digits u = 0 then []
      else (if digits (drop 1 u) = 0 then [] else [drop 1 (drop 1 u)]) @ [drop 1 u]) @ [u]"
    unfolding rep_0_2_def by (simp add: ms_One_Digit del: ms.simps(1) drop_drop)
  consider (0) "digits u = 0" | (1) "digits u = 1" | (2) "2 \<le> digits u"
    by linarith
  then show ?thesis
  proof cases
    case 0
    then show ?thesis unfolding o by simp
  next
    case 1
    then have "digits (drop 1 u) = 0" using digits_drop1 [of u] by simp
    with 1 show ?thesis unfolding o by simp
  next
    case 2
    then have "digits (drop 1 u) \<noteq> 0" using digits_drop1 [of u] by simp
    with 2 show ?thesis unfolding o by (simp add: numeral_2_eq_2 min_def)
  qed
qed

lemma hd_ms_mask:
  "ms (Opt (Seq (One (Lit CHR ''/'')) (rep_0_2 (One Digit)))) t \<noteq> []
   \<and> hd (ms (Opt (Seq (One (Lit CHR ''/'')) (rep_0_2 (One Digit)))) t) = mask_rest t"
proof (cases "take 1 t = ''/''")
  case True
  have "ms (Opt (Seq (One (Lit CHR ''/'')) (rep_0_2 (One Digit)))) t
        = ms (rep_0_2 (One Digit)) (drop 1 t) @ [t]"
    using True by (simp add: ms_Lit_Seq del: ms.simps(1,3))
  with hd_ms_rep_0_2 [of "drop 1 t"] True show ?thesis
    by (simp add: mask_rest_def del: ms.simps)
next
  case False
  have "ms (Opt (Seq (One (Lit CHR ''/'')) (rep_0_2 (One Digit)))) t = [t]"
    using False by (simp add: ms_Lit_Seq del: ms.simps(1,3))
  with False show ?thesis by (simp add: mask_rest_def del: ms.simps)
qed

lemma hd_concat_map:
  assumes "\<And>x. f x \<noteq> []"
  shows "concat (map f xs) = [] \<longleftrightarrow> xs = []"
    and "xs \<noteq> [] \<Longrightarrow> hd (concat (map f xs)) = hd (f (hd xs))"
  using assms by (cases xs; simp)+

lemma ms_ip_head:
  "ms (Seq octet (Seq (One (Lit CHR ''.'')) (Seq octet (Seq (One (Lit CHR ''.''))
            (Seq octet (Seq (One (Lit CHR ''.'')) octet)))))) s =
     (case octet_dot s of None \<Rightarrow> [] | Some s1 \<Rightarrow>
      (case octet_dot s1 of None \<Rightarrow> [] | Some s2 \<Rightarrow>
       (case octet_dot s2 of None \<Rightarrow> [] | Some s3 \<Rightarrow> ms octet s3)))"
  by (simp only: ms_octet_dot)

lemma ms_octet_hd:
  "(ms octet s = [] \<longleftrightarrow> last_octet s = None)
   \<and> (ms octet s \<noteq> [] \<longrightarrow> last_octet s = Some (hd (ms octet s)))"
  unfolding ms_octet last_octet_def by (auto simp: min_def)

lemma first_of_iff: "first_of xs = (if xs = [] then None else Some (hd xs))"
  by (cases xs) (simp_all add: first_of_def)

lemma first_ms_ipPattern: "first_of (ms ipPattern s) = literal_rest s"
proof -
  let ?A = "Seq octet (Seq (One (Lit CHR ''.'')) (Seq octet (Seq (One (Lit CHR ''.''))
            (Seq octet (Seq (One (Lit CHR ''.'')) octet)))))"
  let ?P = "Opt (Seq (One (Lit CHR ''/'')) (rep_0_2 (One Digit)))"
  have ne: "ms ?P x \<noteq> []" for x using hd_ms_mask [of x] by blast
  have m: "ms ipPattern s = concat (map (ms ?P) (ms ?A s))"
    unfolding ipPattern_def by (rule ms.simps(3))
  have e: "ms ipPattern s = [] \<longleftrightarrow> ms ?A s = []"
    unfolding m using hd_concat_map(1) [of "ms ?P" "ms ?A s"] ne by blast
  have h: "hd (ms ipPattern s) = mask_rest (hd (ms ?A s))" if "ms ?A s \<noteq> []"
    unfolding m using hd_concat_map(2) [of "ms ?P" "ms ?A s", OF ne that] hd_ms_mask by simp
  have a: "first_of (ms ?A s) =
     (case octet_dot s of None \<Rightarrow> None | Some s1 \<Rightarrow>
      (case octet_dot s1 of None \<Rightarrow> None | Some s2 \<Rightarrow>
       (case octet_dot s2 of None \<Rightarrow> None | Some s3 \<Rightarrow> last_octet s3)))"
  proof -
    have l: "first_of (ms octet x) = last_octet x" for x
      using ms_octet_hd [of x] by (cases "ms octet x = []") (simp_all add: first_of_iff)
    have n: "first_of [] = (None :: string option)" by (simp add: first_of_def)
    show ?thesis
      unfolding ms_ip_head
      by (cases "octet_dot s"; simp add: n del: ms.simps;
          cases "octet_dot (the (octet_dot s))"; simp add: n del: ms.simps;
          cases "octet_dot (the (octet_dot (the (octet_dot s))))"; simp add: n l del: ms.simps)
  qed
  define xs where "xs = ms ?A s"
  define ys where "ys = ms ipPattern s"
  from e h have e': "ys = [] \<longleftrightarrow> xs = []" and h': "xs \<noteq> [] \<Longrightarrow> hd ys = mask_rest (hd xs)"
    unfolding xs_def ys_def by blast+
  have "first_of ys = (case first_of xs of None \<Rightarrow> None | Some x \<Rightarrow> Some (mask_rest x))"
    using e' h' by (cases "xs = []") (simp_all add: first_of_iff)
  then show ?thesis
    unfolding xs_def [symmetric] ys_def [symmetric] literal_rest_def
    using a [folded xs_def] by (simp split: option.splits)
qed

lemma octet_dot_drop:
  "octet_dot s = Some s1 \<Longrightarrow> \<exists>k. 0 < k \<and> k \<le> length s \<and> s1 = drop k s"
proof -
  assume a: "octet_dot s = Some s1"
  then have s1: "s1 = drop (Suc (digits s)) s" and t: "take 1 (drop (digits s) s) = ''.''"
    by (auto simp: octet_dot_def Let_def split: if_splits)
  from t have "drop (digits s) s \<noteq> []" by auto
  then have "digits s < length s" by simp
  with s1 show ?thesis by (intro exI [of _ "Suc (digits s)"]) simp
qed

lemma last_octet_drop:
  "last_octet s = Some s1 \<Longrightarrow> \<exists>k. 0 < k \<and> k \<le> length s \<and> s1 = drop k s"
proof -
  assume a: "last_octet s = Some s1"
  then have s1: "s1 = drop (min 3 (digits s)) s" and d: "digits s \<noteq> 0"
    by (auto simp: last_octet_def split: if_splits)
  have "digits s \<le> length s" unfolding digits_def by (rule length_takeWhile_le)
  with s1 d show ?thesis by (intro exI [of _ "min 3 (digits s)"]) auto
qed

lemma mask_rest_drop: "\<exists>k. mask_rest t = drop k t"
  unfolding mask_rest_def by (cases "take 1 t = ''/''") (auto intro: exI [of _ 0])

lemma literal_rest_drop:
  assumes "literal_rest s = Some rest"
  shows "\<exists>k. 0 < k \<and> k \<le> length s \<and> rest = drop k s \<and> length rest < length s"
proof -
  from assms obtain s1 s2 s3 s4 where o: "octet_dot s = Some s1" "octet_dot s1 = Some s2"
    "octet_dot s2 = Some s3" "last_octet s3 = Some s4" "rest = mask_rest s4"
    by (auto simp: literal_rest_def split: option.splits)
  from octet_dot_drop [OF o(1)] obtain k1 where k1: "0 < k1" "k1 \<le> length s" "s1 = drop k1 s"
    by blast
  from octet_dot_drop [OF o(2)] obtain k2 where k2: "s2 = drop k2 s1" by blast
  from octet_dot_drop [OF o(3)] obtain k3 where k3: "s3 = drop k3 s2" by blast
  from last_octet_drop [OF o(4)] obtain k4 where k4: "s4 = drop k4 s3" by blast
  from mask_rest_drop [of s4] o(5) obtain k5 where k5: "rest = drop k5 s4" by blast
  let ?k = "k5 + (k4 + (k3 + (k2 + k1)))"
  have r: "rest = drop ?k s" unfolding k5 k4 k3 k2 k1(3) by simp
  show ?thesis
  proof (cases "?k \<le> length s")
    case True
    with k1 r show ?thesis by (intro exI [of _ ?k]) auto
  next
    case False
    with r have "rest = []" by simp
    then have "rest = drop (length s) s" by simp
    with k1 show ?thesis by (intro exI [of _ "length s"]) auto
  qed
qed

lemma scan_drop: "scan k s = scan 0 (drop k s)"
proof (induction s arbitrary: k)
  case Nil
  show ?case by simp
next
  case (Cons c cs)
  show ?case
  proof (cases k)
    case 0
    then show ?thesis by simp
  next
    case (Suc j)
    with Cons.IH [of j] show ?thesis by simp
  qed
qed

lemma scan_literal:
  assumes "literal_rest (c # cs) = Some rest"
  shows "scan 0 (c # cs) = take (length (c # cs) - length rest) (c # cs) # scan 0 rest"
proof -
  from literal_rest_drop [OF assms] obtain k where k: "0 < k" "k \<le> length (c # cs)"
    "rest = drop k (c # cs)" by blast
  then have l: "length (c # cs) - length rest = k" by simp
  from k(1) obtain j where j: "k = Suc j" by (cases k) auto
  have "scan (k - 1) cs = scan 0 rest"
    unfolding k(3) j using scan_drop [of j cs] by simp
  with assms l show ?thesis by (simp del: length_Cons)
qed

lemma find_first_scan:
  "(find_first ipPattern s = None \<longrightarrow> scan 0 s = [])
   \<and> (\<forall>m rest. find_first ipPattern s = Some (m, rest) \<longrightarrow>
         m \<noteq> [] \<and> length rest < length s \<and> scan 0 s = m # scan 0 rest)"
proof (induction s)
  case Nil
  have "literal_rest [] = None" by (simp add: literal_rest_def octet_dot_def)
  then have "ms ipPattern [] = []"
    using first_ms_ipPattern [of "[]"] by (simp add: first_of_iff split: if_splits)
  then show ?case by simp
next
  case (Cons c cs)
  show ?case
  proof (cases "literal_rest (c # cs)")
    case None
    then have "ms ipPattern (c # cs) = []"
      using first_ms_ipPattern [of "c # cs"] by (simp add: first_of_iff split: if_splits)
    then have f: "find_first ipPattern (c # cs) = find_first ipPattern cs" by simp
    from None have s: "scan 0 (c # cs) = scan 0 cs" by simp
    from Cons.IH show ?thesis unfolding f s by auto
  next
    case (Some rest)
    then have ne: "ms ipPattern (c # cs) \<noteq> []" and h: "hd (ms ipPattern (c # cs)) = rest"
      using first_ms_ipPattern [of "c # cs"] by (simp_all add: first_of_iff split: if_splits)
    then obtain tl' where "ms ipPattern (c # cs) = rest # tl'"
      by (cases "ms ipPattern (c # cs)") auto
    then have f: "find_first ipPattern (c # cs)
        = Some (take (length (c # cs) - length rest) (c # cs), rest)"
      by simp
    from literal_rest_drop [OF Some] have l: "length rest < length (c # cs)" by blast
    then have "take (length (c # cs) - length rest) (c # cs) \<noteq> []" by auto
    with l scan_literal [OF Some] show ?thesis unfolding f by simp
  qed
qed

lemma FindAllString_ip_literals: "FindAllString ipPattern s = ip_literals s"
proof (induction "length s" arbitrary: s rule: less_induct)
  case less
  show ?case
  proof (cases "find_first ipPattern s")
    case None
    with find_first_scan [of s] show ?thesis
      by (simp add: FindAllString.simps ip_literals_def)
  next
    case (Some p)
    obtain m rest where p: "p = (m, rest)" by (cases p)
    with Some find_first_scan [of s]
    have f: "m \<noteq> []" "length rest < length s" "scan 0 s = m # scan 0 rest" by blast+
    from less [OF f(2)] have "FindAllString ipPattern rest = scan 0 rest"
      by (simp add: ip_literals_def)
    with Some p f show ?thesis
      by (simp add: FindAllString.simps [of ipPattern s] ip_literals_def)
  qed
qed

lemma MatchString_ip_literals: "MatchString ipPattern s \<longleftrightarrow> ip_literals s \<noteq> []"
proof (cases "find_first ipPattern s")
  case None
  with find_first_scan [of s] show ?thesis by (simp add: MatchString_def ip_literals_def)
next
  case (Some p)
  obtain m rest where "p = (m, rest)" by (cases p)
  with Some find_first_scan [of s] have "scan 0 s = m # scan 0 rest" by blast
  with Some show ?thesis by (simp add: MatchString_def ip_literals_def)
qed

section \<open>The host resolver\<close>

text \<open>
  C7.  The lookup of a host name, \<open>dig\<close>, fails with the resolution error, the error of
  the runner wrapped in \<open>resolving host name\<close>, exactly when the lookup command fails;
  it fails with the error \<open>No IPs found for host\<close> followed by the name exactly when
  the command succeeds and its output holds no address; otherwise it returns all the
  addresses of the output, from left to right.  It runs the command once.  The hosts of
  a target are resolved by this lookup when the host is given and holds no address
  itself.  What counts as an address is said by \<open>ip_literals\<close>, without the pattern.
\<close>

theorem dig_outcomes:
  "(\<forall>e. fst (dig run h log) = Inl (WrapError e ''resolving host name'')
         \<longleftrightarrow> run log ''dig'' [''+short'', h] = Inl e)
   \<and> (fst (dig run h log) = Inl (Error (''No IPs found for host '' @ h))
         \<longleftrightarrow> (\<exists>out. run log ''dig'' [''+short'', h] = Inr out \<and> ip_literals out = []))
   \<and> (\<forall>out. run log ''dig'' [''+short'', h] = Inr out \<and> ip_literals out \<noteq> []
         \<longrightarrow> fst (dig run h log) = Inr (ip_literals out))
   \<and> snd (dig run h log) = log @ [(''dig'', [''+short'', h])]
   \<and> (h \<noteq> [] \<and> ip_literals h = [] \<longrightarrow> resolve_hosts run h log = dig run h log)"
  by (cases "run log ''dig'' [''+short'', h]")
     (simp_all add: dig_def RunCommand_def Let_def resolve_hosts_def
       FindAllString_ip_literals MatchString_ip_literals)

theorem dig_outcomes_witness:
  "fst (resolve_hosts ok_runner ''unresolvable.example'' [])
     = Inl (Error ''No IPs found for host unresolvable.example'')
   \<and> fst (resolve_hosts failing_runner ''example.com'' [])
     = Inl (WrapError () ''resolving host name'')
   \<and> fst (resolve_hosts (\<lambda>log name args. Inr dig_answer :: unit + string) ''example.com'' [])
     = Inr [''93.184.216.34'', ''10.1.2.0/24'', ''234.5.6.789'']"
  using dig_outcomes [of ok_runner "''unresolvable.example''" "[]"]
    dig_outcomes [of failing_runner "''example.com''" "[]"]
    dig_outcomes [of "\<lambda>log name args. Inr dig_answer :: unit + string" "''example.com''" "[]"]
  by (simp add: ip_literals_examples ip_literals_example_com ok_runner_def
      failing_runner_def)

section \<open>The rules of a target\<close>

text \<open>
  The loop over the hosts joins them by commas, and a target that compiles has passed
  every check.
\<close>

lemma append_hosts_more:
  "append_hosts command (Suc i) hosts = command @ concat (map (\<lambda>h. '','' @ h) hosts)"
  by (induction hosts arbitrary: command i) simp_all

lemma comma_join_Cons: "comma_join (h # hs) = h @ concat (map (\<lambda>h. '','' @ h) hs)"
  by (induction hs arbitrary: h) simp_all

lemma append_hosts_comma_join: "append_hosts command 0 hosts = command @ comma_join hosts"
  by (cases hosts) (simp_all add: append_hosts_more comma_join_Cons)


lemma target_rules_Inr:
  fixes run :: "'e CmdRunner"
  assumes "target_rules run t log = (Inr rs, log')"
  shows "\<exists>hosts direction protocol dports sports.
           resolve_hosts run (Host t) log = (Inr hosts, log')
         \<and> direction_of (Direction t) = (Inr direction :: 'e error + string)
         \<and> protocol_of (Protocol t) = (Inr protocol :: 'e error + string)
         \<and> ports_of (DstPorts t) = (Inr dports :: 'e error + string)
         \<and> ports_of (SrcPorts t) = (Inr sports :: 'e error + string)
         \<and> rs = (if direction = [] \<or> direction = ''INPUT''
                  then [chain_command ''INPUT'' '' -s '' hosts protocol dports sports] else [])
               @ (if direction = [] \<or> direction = ''OUTPUT''
                  then [chain_command ''OUTPUT'' '' -d '' hosts protocol dports sports] else [])"
proof -
  from assms have ne: "\<not> (Host t = [] \<and> DstPorts t = [] \<and> SrcPorts t = [])"
    by (auto simp: target_rules_def)
  obtain rh l1 where r: "resolve_hosts run (Host t) log = (rh, l1)"
    by (cases "resolve_hosts run (Host t) log")
  show ?thesis
    using assms ne unfolding target_rules_def r
    by (cases rh; cases "direction_of (Direction t) :: 'e error + string";
        cases "protocol_of (Protocol t) :: 'e error + string";
        cases "ports_of (DstPorts t) :: 'e error + string";
        cases "ports_of (SrcPorts t) :: 'e error + string") simp_all
qed

lemma ports_of_Inr: "ports_of s = Inr ports \<Longrightarrow> ports = s"
  by (auto simp: ports_of_def split: if_splits)

lemma direction_of_Inr:
  assumes "direction_of d = Inr direction"
  shows "(direction = [] \<or> direction = ''INPUT'') \<longleftrightarrow> ToUpper d \<noteq> ''OUTPUT''"
    and "(direction = [] \<or> direction = ''OUTPUT'') \<longleftrightarrow> ToUpper d \<noteq> ''INPUT''"
  using assms by (auto simp: direction_of_def Let_def split: if_splits)

text \<open>
  C8.  Let the host of a target resolve to more than one address, and let the target
  compile.  Then it compiles to at most two rules, one for each applicable chain:
  the \<open>INPUT\<close> rule unless the direction is \<open>OUTPUT\<close>, then the \<open>OUTPUT\<close> rule
  unless the direction is \<open>INPUT\<close>.  Each of them has all the addresses, joined by
  commas, in its one host field, after \<open>-s\<close> and \<open>-d\<close>; the addresses are not spread
  over several rules.
\<close>

theorem target_rules_hosts_joined:
  fixes run :: "'e CmdRunner"
  assumes "resolve_hosts run (Host t) log = (Inr hosts, log')"
    and "1 < length hosts"
    and "target_rules run t log = (Inr rs, log'')"
  shows "\<exists>protocol rest.
           protocol_of (Protocol t) = (Inr protocol :: 'e error + string)
         \<and> rest = '' -p '' @ protocol
                  @ (if DstPorts t \<noteq> [] then '' -dport '' @ DstPorts t else [])
                  @ (if SrcPorts t \<noteq> [] then '' -sport '' @ SrcPorts t else [])
                  @ '' -j DROP''
         \<and> rs = (if ToUpper (Direction t) = ''OUTPUT'' then []
                  else [''INPUT -s '' @ comma_join hosts @ rest])
               @ (if ToUpper (Direction t) = ''INPUT'' then []
                  else [''OUTPUT -d '' @ comma_join hosts @ rest])
         \<and> length rs \<le> 2"
proof -
  from assms(2) have ne: "hosts \<noteq> []" by auto
  from target_rules_Inr [OF assms(3)] assms(1)
  obtain direction protocol dports sports where
    d: "direction_of (Direction t) = (Inr direction :: 'e error + string)" and
    p: "protocol_of (Protocol t) = (Inr protocol :: 'e error + string)" and
    dp: "ports_of (DstPorts t) = (Inr dports :: 'e error + string)" and
    sp: "ports_of (SrcPorts t) = (Inr sports :: 'e error + string)" and
    rs: "rs = (if direction = [] \<or> direction = ''INPUT''
               then [chain_command ''INPUT'' '' -s '' hosts protocol dports sports] else [])
            @ (if direction = [] \<or> direction = ''OUTPUT''
               then [chain_command ''OUTPUT'' '' -d '' hosts protocol dports sports] else [])"
    by auto
  note dir = direction_of_Inr [OF d]
  show ?thesis
    using p ne unfolding rs dir ports_of_Inr [OF dp] ports_of_Inr [OF sp]
    by (simp add: chain_command_def append_hosts_comma_join)
qed

lemma protocol_of_Nil: "protocol_of [] = Inr ''all''"
  by (simp add: protocol_of_def)

lemma ports_of_Nil: "ports_of [] = Inr []"
  by (simp add: ports_of_def)

theorem target_rules_hosts_joined_witness:
  "fst (target_rules (\<lambda>log name args. Inl ())
      \<lparr>Host = ''10.0.0.1 10.0.0.2'', Direction = ''input'', Protocol = [],
        DstPorts = [], SrcPorts = []\<rparr> [])
   = Inr [''INPUT -s 10.0.0.1,10.0.0.2 -p all -j DROP'']"
proof -
  let ?t = "\<lparr>Host = ''10.0.0.1 10.0.0.2'', Direction = ''input'', Protocol = [],
        DstPorts = [], SrcPorts = []\<rparr>"
  let ?run = "\<lambda>log name args. Inl () :: unit + string"
  have r: "resolve_hosts ?run ''10.0.0.1 10.0.0.2'' [] = (Inr [''10.0.0.1'', ''10.0.0.2''], [])"
    by (simp add: resolve_hosts_def ip_match_two ip_find_all_two)
  have "\<exists>rs. target_rules ?run ?t [] = (Inr rs, [])"
    by (simp add: target_rules_def r direction_of_def ToUpper_input protocol_of_Nil
        ports_of_Nil)
  then obtain rs where t: "target_rules ?run ?t [] = (Inr rs, [])" ..
  from target_rules_hosts_joined [of ?run ?t "[]" "[''10.0.0.1'', ''10.0.0.2'']" "[]" rs "[]"] r t
  show ?thesis
    by (simp add: ToUpper_input protocol_of_Nil)
qed

section \<open>Ports\<close>

text \<open>
  What \<open>portPattern\<close> accepts.  \<open>MatchString\<close> looks for a match at every position
  of the string, and the pattern matches at a position exactly when the rest of the
  string from there on is a port specification.  So the strings that pass the check are
  those with a port specification at their end, that is, those that end in a digit.
\<close>

lemma colon_not_digit: "\<not> in_cls Digit CHR '':''"
  by simp

lemma all_digits_iff: "all_digits s \<longleftrightarrow> s \<noteq> [] \<and> (\<forall>c \<in> set s. in_cls Digit c)"
  unfolding all_digits_def list_all_iff ..

lemma all_digits_D: "all_digits s \<Longrightarrow> s \<noteq> [] \<and> (\<forall>c \<in> set s. in_cls Digit c)"
  unfolding all_digits_iff .

lemma all_digits_I: "s \<noteq> [] \<Longrightarrow> \<forall>c \<in> set s. in_cls Digit c \<Longrightarrow> all_digits s"
  unfolding all_digits_iff by (rule conjI)

lemma find_first_iff:
  "find_first r s \<noteq> None \<longleftrightarrow> (\<exists>i \<le> length s. ms r (drop i s) \<noteq> [])"
proof (induction s)
  case Nil
  show ?case by (simp split: list.splits)
next
  case (Cons c cs)
  show ?case
  proof (cases "ms r (c # cs)")
    case Nil
    have "(\<exists>i \<le> length (c # cs). ms r (drop i (c # cs)) \<noteq> [])
          \<longleftrightarrow> (\<exists>j \<le> length cs. ms r (drop j cs) \<noteq> [])"
    proof
      assume "\<exists>i \<le> length (c # cs). ms r (drop i (c # cs)) \<noteq> []"
      then obtain i where i: "i \<le> length (c # cs)" "ms r (drop i (c # cs)) \<noteq> []" by blast
      with Nil obtain j where "i = Suc j" by (cases i) auto
      with i show "\<exists>j \<le> length cs. ms r (drop j cs) \<noteq> []" by auto
    next
      assume "\<exists>j \<le> length cs. ms r (drop j cs) \<noteq> []"
      then obtain j where "j \<le> length cs" "ms r (drop j cs) \<noteq> []" by blast
      then have "Suc j \<le> length (c # cs)" "ms r (drop (Suc j) (c # cs)) \<noteq> []" by auto
      then show "\<exists>i \<le> length (c # cs). ms r (drop i (c # cs)) \<noteq> []" by blast
    qed
    with Nil Cons.IH show ?thesis by simp
  next
    case (Cons rest rs)
    then have "ms r (drop 0 (c # cs)) \<noteq> []" by simp
    then have "\<exists>i \<le> length (c # cs). ms r (drop i (c # cs)) \<noteq> []" by blast
    with Cons show ?thesis by simp
  qed
qed

lemma MatchString_iff:
  "MatchString r s \<longleftrightarrow> (\<exists>i \<le> length s. ms r (drop i s) \<noteq> [])"
  unfolding MatchString_def by (rule find_first_iff)

lemma Nil_in_ms_Plus:
  "[] \<in> set (ms (Plus k) w) \<longleftrightarrow> w \<noteq> [] \<and> (\<forall>c \<in> set w. in_cls k c)"
proof
  assume "[] \<in> set (ms (Plus k) w)"
  then obtain n where n: "1 \<le> n" "n \<le> length (takeWhile (in_cls k) w)" "drop n w = []"
    by auto
  then have "length w \<le> length (takeWhile (in_cls k) w)" by simp
  then have "takeWhile (in_cls k) w = w"
    by (metis length_takeWhile_le le_antisym takeWhile_eq_take take_all_iff order_refl)
  then have "\<forall>c \<in> set w. in_cls k c"
    by (metis set_takeWhileD)
  moreover from n have "w \<noteq> []" by auto
  ultimately show "w \<noteq> [] \<and> (\<forall>c \<in> set w. in_cls k c)" by blast
next
  assume a: "w \<noteq> [] \<and> (\<forall>c \<in> set w. in_cls k c)"
  then have tw: "takeWhile (in_cls k) w = w" by (simp add: takeWhile_eq_all_conv)
  from a have "1 \<le> length w" "length w \<le> length (takeWhile (in_cls k) w)" "drop (length w) w = []"
    unfolding tw by (simp_all add: Suc_le_eq)
  then show "[] \<in> set (ms (Plus k) w)" by force
qed


lemma ms_Plus_set:
  "set (ms (Plus k) t) = {drop n t | n. 1 \<le> n \<and> n \<le> length (takeWhile (in_cls k) t)}"
  by auto

lemma ms_port_tail:
  "ms (Seq (Opt (Seq (One (Lit CHR '':'')) (Plus Digit))) EndText) u \<noteq> []
   \<longleftrightarrow> u = [] \<or> (\<exists>w. u = CHR '':'' # w \<and> all_digits w)"
proof -
  have "ms (Seq (Opt (Seq (One (Lit CHR '':'')) (Plus Digit))) EndText) u \<noteq> []
        \<longleftrightarrow> u = [] \<or> [] \<in> set (ms (Seq (One (Lit CHR '':'')) (Plus Digit)) u)"
    by auto
  also have "[] \<in> set (ms (Seq (One (Lit CHR '':'')) (Plus Digit)) u)
        \<longleftrightarrow> (\<exists>w. u = CHR '':'' # w \<and> [] \<in> set (ms (Plus Digit) w))"
    by (cases u) auto
  finally show ?thesis
    unfolding Nil_in_ms_Plus all_digits_iff .
qed

lemma ms_portPattern:
  "ms portPattern t \<noteq> [] \<longleftrightarrow>
     (\<exists>n. 1 \<le> n \<and> n \<le> length (takeWhile (in_cls Digit) t)
          \<and> (drop n t = [] \<or> (\<exists>w. drop n t = CHR '':'' # w \<and> all_digits w)))"
proof -
  have "ms portPattern t \<noteq> [] \<longleftrightarrow>
        (\<exists>u \<in> set (ms (Plus Digit) t).
           ms (Seq (Opt (Seq (One (Lit CHR '':'')) (Plus Digit))) EndText) u \<noteq> [])"
    unfolding portPattern_def by (simp del: ms.simps(2,4) add: ms.simps(3))
  then show ?thesis
    unfolding ms_port_tail ms_Plus_set by blast
qed


lemma port_spec_range:
  assumes "all_digits a" and "all_digits b"
  shows "takeWhile (in_cls Digit) (a @ CHR '':'' # b) = a"
    and "takeWhile (\<lambda>c. c \<noteq> CHR '':'') (a @ CHR '':'' # b) = a"
    and "dropWhile (\<lambda>c. c \<noteq> CHR '':'') (a @ CHR '':'' # b) = CHR '':'' # b"
proof -
  from all_digits_D [OF assms(1)] have d: "\<forall>c \<in> set a. in_cls Digit c" by blast
  then have n: "\<forall>c \<in> set a. c \<noteq> CHR '':''" using colon_not_digit by blast
  show "takeWhile (in_cls Digit) (a @ CHR '':'' # b) = a"
    using d colon_not_digit by (simp del: in_cls.simps)
  show "takeWhile (\<lambda>c. c \<noteq> CHR '':'') (a @ CHR '':'' # b) = a"
    using n by simp
  show "dropWhile (\<lambda>c. c \<noteq> CHR '':'') (a @ CHR '':'' # b) = CHR '':'' # b"
    using n by simp
qed

lemma is_port_spec_iff:
  "is_port_spec t \<longleftrightarrow>
     all_digits t \<or> (\<exists>a b. t = a @ CHR '':'' # b \<and> all_digits a \<and> all_digits b)"
proof
  assume "is_port_spec t"
  then consider "all_digits t"
    | "all_digits (takeWhile (\<lambda>c. c \<noteq> CHR '':'') t)"
      "all_digits (drop 1 (dropWhile (\<lambda>c. c \<noteq> CHR '':'') t))"
    unfolding is_port_spec_def by blast
  then show "all_digits t \<or> (\<exists>a b. t = a @ CHR '':'' # b \<and> all_digits a \<and> all_digits b)"
  proof cases
    case 1
    then show ?thesis by blast
  next
    case 2
    let ?a = "takeWhile (\<lambda>c. c \<noteq> CHR '':'') t"
    let ?d = "dropWhile (\<lambda>c. c \<noteq> CHR '':'') t"
    from all_digits_D [OF 2(2)] have d1: "drop 1 ?d \<noteq> []" by blast
    have ne: "?d \<noteq> []"
    proof
      assume "?d = []"
      then have "drop 1 ?d = []" by (simp only: drop_Nil)
      with d1 show False by contradiction
    qed
    then obtain x w where xw: "?d = x # w" by (cases ?d) auto
    with hd_dropWhile [OF ne] have x: "x = CHR '':''" by simp
    have "?a @ ?d = t" by (rule takeWhile_dropWhile_id)
    then have "t = ?a @ CHR '':'' # drop 1 ?d" unfolding xw x by simp
    with 2 show ?thesis by blast
  qed
next
  assume "all_digits t \<or> (\<exists>a b. t = a @ CHR '':'' # b \<and> all_digits a \<and> all_digits b)"
  then consider "all_digits t" | a b where "t = a @ CHR '':'' # b" "all_digits a" "all_digits b"
    by blast
  then show "is_port_spec t"
  proof cases
    case 1
    then show ?thesis by (simp add: is_port_spec_def)
  next
    case 2
    from port_spec_range(2,3) [OF 2(2,3)] 2 show ?thesis
      unfolding is_port_spec_def by simp
  qed
qed

lemma portPattern_at_start:
  "ms portPattern t \<noteq> [] \<longleftrightarrow> is_port_spec t"
proof
  assume "ms portPattern t \<noteq> []"
  then obtain n where n: "1 \<le> n" "n \<le> length (takeWhile (in_cls Digit) t)"
    and c: "drop n t = [] \<or> (\<exists>w. drop n t = CHR '':'' # w \<and> all_digits w)"
    unfolding ms_portPattern by blast
  let ?D = "takeWhile (in_cls Digit) t"
  have D: "t = ?D @ dropWhile (in_cls Digit) t" by simp
  have dig: "\<forall>c \<in> set ?D. in_cls Digit c" by (metis set_takeWhileD)
  from c show "is_port_spec t"
  proof
    assume "drop n t = []"
    with n have "length t \<le> length ?D" by simp
    then have "?D = t"
      by (metis length_takeWhile_le le_antisym takeWhile_eq_take take_all_iff order_refl)
    then have Dt: "?D = t" .
    from n have "t \<noteq> []" unfolding Dt by auto
    moreover from dig have "\<forall>c \<in> set t. in_cls Digit c" unfolding Dt .
    ultimately have "all_digits t" by (rule all_digits_I)
    then show ?thesis by (simp add: is_port_spec_iff)
  next
    assume "\<exists>w. drop n t = CHR '':'' # w \<and> all_digits w"
    then obtain w where w: "drop n t = CHR '':'' # w" "all_digits w" by blast
    then have nt: "n < length t" by (metis drop_all list.distinct(1) not_le)
    from w have tn: "t ! n = CHR '':''" by (metis nt hd_drop_conv_nth list.sel(1))
    have "\<not> n < length ?D"
    proof
      assume l: "n < length ?D"
      then have "?D ! n \<in> set ?D" by simp
      moreover from l have "?D ! n = t ! n" by (rule takeWhile_nth)
      ultimately show False using dig tn colon_not_digit by metis
    qed
    with n have nD: "n = length ?D" by simp
    have "?D = take n t" unfolding nD by (rule takeWhile_eq_take)
    then have "t = ?D @ CHR '':'' # w" using w(1) by (metis append_take_drop_id)
    moreover have "all_digits ?D"
    proof (rule all_digits_I)
      from n show "?D \<noteq> []" by (auto simp del: in_cls.simps takeWhile_eq_Nil_iff)
      from dig show "\<forall>c \<in> set ?D. in_cls Digit c" .
    qed
    ultimately show ?thesis using w(2) unfolding is_port_spec_iff by blast
  qed
next
  assume "is_port_spec t"
  then consider "all_digits t" | a b where "t = a @ CHR '':'' # b" "all_digits a" "all_digits b"
    unfolding is_port_spec_iff by blast
  then show "ms portPattern t \<noteq> []"
  proof cases
    case 1
    from all_digits_D [OF 1] have t: "t \<noteq> []" "takeWhile (in_cls Digit) t = t"
      by (simp_all del: in_cls.simps)
    have "1 \<le> length t \<and> length t \<le> length (takeWhile (in_cls Digit) t)
        \<and> drop (length t) t = []"
      unfolding t(2) using t(1) by (simp add: Suc_le_eq)
    then show ?thesis unfolding ms_portPattern by blast
  next
    case 2
    from all_digits_D [OF 2(2)] have "a \<noteq> []" by blast
    with port_spec_range(1) [OF 2(2,3)] 2
    have "1 \<le> length a \<and> length a \<le> length (takeWhile (in_cls Digit) t)
        \<and> drop (length a) t = CHR '':'' # b \<and> all_digits b"
      by (simp add: Suc_le_eq del: in_cls.simps)
    then show ?thesis unfolding ms_portPattern by blast
  qed
qed

lemma MatchString_portPattern:
  "MatchString portPattern s \<longleftrightarrow> (\<exists>i \<le> length s. is_port_spec (drop i s))"
  by (simp add: MatchString_iff portPattern_at_start)

lemma is_port_spec_last: "is_port_spec t \<Longrightarrow> t \<noteq> [] \<and> in_cls Digit (last t)"
  unfolding is_port_spec_iff all_digits_iff by (auto simp del: in_cls.simps)

lemma MatchString_portPattern_last:
  "MatchString portPattern s \<longleftrightarrow> s \<noteq> [] \<and> in_cls Digit (last s)"
proof
  assume "MatchString portPattern s"
  then obtain i where i: "i \<le> length s" "is_port_spec (drop i s)"
    unfolding MatchString_portPattern by blast
  from is_port_spec_last [OF i(2)] have "drop i s \<noteq> []" "in_cls Digit (last (drop i s))"
    by blast+
  then show "s \<noteq> [] \<and> in_cls Digit (last s)" by (auto simp: last_drop)
next
  assume a: "s \<noteq> [] \<and> in_cls Digit (last s)"
  then have "drop (length s - 1) s = [last s]"
    by (metis append_butlast_last_id append_eq_conv_conj length_butlast)
  with a have "is_port_spec (drop (length s - 1) s)"
    by (simp add: is_port_spec_iff all_digits_iff del: in_cls.simps)
  then show "MatchString portPattern s"
    unfolding MatchString_portPattern by (metis diff_le_self)
qed

text \<open>
  C5.  A non-empty string of ports is meant to pass the check exactly when it is a
  decimal port or a range \<open>low:high\<close> of two.  The code does not behave so:
  \<open>portPattern\<close> is anchored at the end of the string only, and a string that merely
  ends in a port passes.  \<open>abc80\<close> is no port and no range of ports, yet the target
  with these destination ports compiles, to rules that carry \<open>abc80\<close> as the port.
  The two examples given with the property hold: \<open>8080\<close> passes and \<open>abc\<close> is
  refused with the error of the port check.
\<close>

theorem rules_accept_port_with_prefix:
  "\<not> is_port_spec ''abc80''
   \<and> rules run \<lparr>Type = ty, Timeout = tm,
                 Targets = [\<lparr>Host = [], Direction = [], Protocol = [],
                             DstPorts = ''abc80'', SrcPorts = []\<rparr>]\<rparr> log
     = (Inr [''INPUT -p all -dport abc80 -j DROP'', ''OUTPUT -p all -dport abc80 -j DROP''], log)
   \<and> ports_of ''8080'' = Inr ''8080''
   \<and> ports_of ''abc'' = Inl (Error ''Invalid destination port specified abc'')"
  by (simp add: not_port_spec_abc80 rules_def target_rules_def resolve_hosts_def
      port_match_abc80 port_match_8080 port_no_match_abc direction_of_def protocol_of_def
      ports_of_def chain_command_def)

text \<open>
  Every compiled rule begins with \<open>INPUT\<close> or \<open>OUTPUT\<close> and ends with
  \<open>-j DROP\<close>.
\<close>

lemma chain_command_shape:
  "chain = ''INPUT'' \<or> chain = ''OUTPUT''
   \<Longrightarrow> rule_shape (chain_command chain flag hosts protocol dports sports)"
  by (auto simp: rule_shape_def chain_command_def Let_def append_hosts_comma_join)

lemma target_rules_shape:
  fixes run :: "'e CmdRunner"
  assumes "target_rules run t log = (Inr rs, log')"
  shows "\<forall>r \<in> set rs. rule_shape r"
  using target_rules_Inr [OF assms] by (auto simp: chain_command_shape)

lemma rules_loop_shape:
  fixes run :: "'e CmdRunner"
  assumes "rules_loop run ts acc log = (Inr rs, log')" and "\<forall>r \<in> set acc. rule_shape r"
  shows "\<forall>r \<in> set rs. rule_shape r"
  using assms
proof (induction ts arbitrary: acc log)
  case Nil
  then show ?case by simp
next
  case (Cons t ts)
  obtain r1 l1 where t: "target_rules run t log = (r1, l1)" by (cases "target_rules run t log")
  show ?case
  proof (cases r1)
    case (Inl e)
    with Cons.prems t show ?thesis by simp
  next
    case (Inr new)
    with t have "\<forall>r \<in> set new. rule_shape r" by (simp add: target_rules_shape)
    with Cons.prems(2) have acc: "\<forall>r \<in> set (acc @ new). rule_shape r" by auto
    from Cons.prems(1) t Inr have "rules_loop run ts (acc @ new) l1 = (Inr rs, log')" by simp
    from Cons.IH [OF this acc] show ?thesis .
  qed
qed

lemma rules_shape:
  fixes run :: "'e CmdRunner"
  assumes "rules run opts log = (Inr rs, log')"
  shows "\<forall>r \<in> set rs. rule_shape r"
  using rules_loop_shape [of run "Targets opts" "[]" log rs log'] assms
  by (simp add: rules_def)

text \<open>
  C9.  Every compiled rule is meant to begin with its chain, to hold exactly one
  protocol option and to end with \<open>-j DROP\<close>.  The code does not keep the middle part,
  again because \<open>portPattern\<close> lets through any text that ends in a digit: the
  destination ports \<open>1 -p tcp 2\<close> pass the check, and the rule compiled from them has
  two protocol options among its words, \<open>-p all\<close> and \<open>-p tcp\<close>.
\<close>

theorem rules_two_protocol_fields:
  "rules run \<lparr>Type = ty, Timeout = tm,
               Targets = [\<lparr>Host = [], Direction = ''INPUT'', Protocol = [],
                           DstPorts = ''1 -p tcp 2'', SrcPorts = []\<rparr>]\<rparr> log
     = (Inr [''INPUT -p all -dport 1 -p tcp 2 -j DROP''], log)
   \<and> protocol_fields ''INPUT -p all -dport 1 -p tcp 2 -j DROP'' = 2"
  by (simp add: protocol_fields_injected rules_def target_rules_def resolve_hosts_def
      port_match_injected direction_of_def ToUpper_words protocol_of_def ports_of_def
      chain_command_def)

section \<open>Directions and protocols\<close>

text \<open>
  What the case mappings take to a word.  A letter comes out of the letter itself in
  either case and out of the code points that Unicode maps to it, and out of nothing
  else, so that the switches of \<open>rules\<close> are case distinctions on how the field is
  spelt.
\<close>

lemma letters_facts:
  "length lower_letters = 26" "length upper_letters = 26"
  "distinct lower_letters" "distinct upper_letters"
  "set lower_letters \<inter> set upper_letters = {}"
  by (simp_all add: lower_letters_def upper_letters_def)

lemma upper_char_lower: "i < 26 \<Longrightarrow> upper_char (lower_letters ! i) = upper_letters ! i"
  unfolding upper_char_def by (simp add: map_of_zip_nth letters_facts)

lemma lower_char_upper: "i < 26 \<Longrightarrow> lower_char (upper_letters ! i) = lower_letters ! i"
  unfolding lower_char_def by (simp add: map_of_zip_nth letters_facts)

lemma upper_char_other: "c \<notin> set lower_letters \<Longrightarrow> upper_char c = c"
proof -
  assume "c \<notin> set lower_letters"
  then have "map_of (zip lower_letters upper_letters) c = None"
    by (simp add: map_of_zip_is_None letters_facts)
  then show ?thesis by (simp add: upper_char_def)
qed

lemma lower_char_other: "c \<notin> set upper_letters \<Longrightarrow> lower_char c = c"
proof -
  assume "c \<notin> set upper_letters"
  then have "map_of (zip upper_letters lower_letters) c = None"
    by (simp add: map_of_zip_is_None letters_facts)
  then show ?thesis by (simp add: lower_char_def)
qed

lemma upper_char_eq_iff:
  assumes "u \<in> set upper_letters"
  shows "upper_char c = u \<longleftrightarrow> c = u \<or> c = lower_char u"
proof -
  from assms obtain j where j: "j < 26" "u = upper_letters ! j"
    by (auto simp: in_set_conv_nth letters_facts)
  have lu: "lower_char u = lower_letters ! j" using j by (simp add: lower_char_upper)
  from assms letters_facts(5) have un: "u \<notin> set lower_letters" by blast
  show ?thesis
  proof
    assume a: "upper_char c = u"
    show "c = u \<or> c = lower_char u"
    proof (cases "c \<in> set lower_letters")
      case True
      then obtain i where i: "i < 26" "c = lower_letters ! i"
        by (auto simp: in_set_conv_nth letters_facts)
      with a j have "upper_letters ! i = upper_letters ! j" by (simp add: upper_char_lower)
      with i j have "i = j" by (simp add: nth_eq_iff_index_eq letters_facts)
      with i lu show ?thesis by simp
    next
      case False
      with a show ?thesis by (simp add: upper_char_other)
    qed
  next
    assume "c = u \<or> c = lower_char u"
    then show "upper_char c = u"
    proof
      assume "c = u"
      with un show ?thesis by (simp add: upper_char_other)
    next
      assume "c = lower_char u"
      with lu j show ?thesis by (simp add: upper_char_lower)
    qed
  qed
qed

lemma lower_char_eq_iff:
  assumes "l \<in> set lower_letters"
  shows "lower_char c = l \<longleftrightarrow> c = l \<or> c = upper_char l"
proof -
  from assms obtain j where j: "j < 26" "l = lower_letters ! j"
    by (auto simp: in_set_conv_nth letters_facts)
  have ul: "upper_char l = upper_letters ! j" using j by (simp add: upper_char_lower)
  from assms letters_facts(5) have ln: "l \<notin> set upper_letters" by blast
  show ?thesis
  proof
    assume a: "lower_char c = l"
    show "c = l \<or> c = upper_char l"
    proof (cases "c \<in> set upper_letters")
      case True
      then obtain i where i: "i < 26" "c = upper_letters ! i"
        by (auto simp: in_set_conv_nth letters_facts)
      with a j have "lower_letters ! i = lower_letters ! j" by (simp add: lower_char_upper)
      with i j have "i = j" by (simp add: nth_eq_iff_index_eq letters_facts)
      with i ul show ?thesis by simp
    next
      case False
      with a show ?thesis by (simp add: lower_char_other)
    qed
  next
    assume "c = l \<or> c = upper_char l"
    then show "lower_char c = l"
    proof
      assume "c = l"
      with ln show ?thesis by (simp add: lower_char_other)
    next
      assume "c = upper_char l"
      with ul j show ?thesis by (simp add: lower_char_upper)
    qed
  qed
qed

lemma lower_char_in: "u \<in> set upper_letters \<Longrightarrow> lower_char u \<in> set lower_letters"
  by (auto simp: in_set_conv_nth letters_facts lower_char_upper)

lemma upper_char_in: "l \<in> set lower_letters \<Longrightarrow> upper_char l \<in> set upper_letters"
  by (auto simp: in_set_conv_nth letters_facts upper_char_lower)

lemma lead_bytes_no_letters:
  "CHR 0xC4 \<notin> set upper_letters" "CHR 0xC4 \<notin> set lower_letters"
  "CHR 0xC5 \<notin> set upper_letters" "CHR 0xC5 \<notin> set lower_letters"
  "CHR 0xE2 \<notin> set upper_letters" "CHR 0xE2 \<notin> set lower_letters"
  by (simp_all add: lower_letters_def upper_letters_def)

lemma forms_length [simp]:
  "length dotless_i = 2" "length long_s = 2" "length dotted_I = 2" "length kelvin_sign = 3"
  by (simp_all add: dotless_i_def long_s_def dotted_I_def kelvin_sign_def)

lemma ToUpper_Cons_iff:
  assumes "u \<in> set upper_letters"
  shows "ToUpper d = u # us \<longleftrightarrow>
         list_ex (\<lambda>p. take (length p) d = p \<and> ToUpper (drop (length p) d) = us) (upper_forms u)"
proof (cases d)
  case Nil
  then show ?thesis by (simp add: upper_forms_def dotless_i_def long_s_def)
next
  case (Cons c cs)
  from assms have lu: "lower_char u \<in> set lower_letters" by (rule lower_char_in)
  from assms lu lead_bytes_no_letters
  have ne: "u \<noteq> CHR 0xC4" "u \<noteq> CHR 0xC5" "lower_char u \<noteq> CHR 0xC4" "lower_char u \<noteq> CHR 0xC5"
    by metis+
  consider (i) "take 2 (c # cs) = dotless_i"
    | (s) "take 2 (c # cs) \<noteq> dotless_i" "take 2 (c # cs) = long_s"
    | (o) "take 2 (c # cs) \<noteq> dotless_i" "take 2 (c # cs) \<noteq> long_s"
    by blast
  then show ?thesis
  proof cases
    case i
    then obtain cs' where d: "c = CHR 0xC4" "cs = CHR 0xB1 # cs'"
      by (cases cs) (auto simp: dotless_i_def)
    have "ToUpper (c # cs) = CHR ''I'' # ToUpper cs'"
      unfolding d by (simp add: ToUpper.simps dotless_i_def)
    then show ?thesis
      unfolding Cons d using ne by (auto simp: upper_forms_def dotless_i_def long_s_def)
  next
    case s
    then obtain cs' where d: "c = CHR 0xC5" "cs = CHR 0xBF # cs'"
      by (cases cs) (auto simp: long_s_def)
    have "ToUpper (c # cs) = CHR ''S'' # ToUpper cs'"
      unfolding d by (simp add: ToUpper.simps dotless_i_def long_s_def)
    then show ?thesis
      unfolding Cons d using ne by (auto simp: upper_forms_def dotless_i_def long_s_def)
  next
    case o
    then have "ToUpper (c # cs) = upper_char c # ToUpper cs" by (simp add: ToUpper.simps)
    then have "ToUpper (c # cs) = u # us \<longleftrightarrow> (c = u \<or> c = lower_char u) \<and> ToUpper cs = us"
      using upper_char_eq_iff [OF assms, of c] by simp
    moreover have "list_ex (\<lambda>p. take (length p) (c # cs) = p
              \<and> ToUpper (drop (length p) (c # cs)) = us) (upper_forms u)
        \<longleftrightarrow> (c = u \<or> c = lower_char u) \<and> ToUpper cs = us"
      using o by (auto simp: upper_forms_def)
    ultimately show ?thesis unfolding Cons by blast
  qed
qed

lemma ToLower_Cons_iff:
  assumes "l \<in> set lower_letters"
  shows "ToLower d = l # ls \<longleftrightarrow>
         list_ex (\<lambda>p. take (length p) d = p \<and> ToLower (drop (length p) d) = ls) (lower_forms l)"
proof (cases d)
  case Nil
  then show ?thesis by (simp add: lower_forms_def dotted_I_def kelvin_sign_def)
next
  case (Cons c cs)
  from assms have ul: "upper_char l \<in> set upper_letters" by (rule upper_char_in)
  from assms ul lead_bytes_no_letters
  have ne: "l \<noteq> CHR 0xC4" "l \<noteq> CHR 0xE2" "upper_char l \<noteq> CHR 0xC4" "upper_char l \<noteq> CHR 0xE2"
    by metis+
  consider (i) "take 2 (c # cs) = dotted_I"
    | (k) "take 2 (c # cs) \<noteq> dotted_I" "take 3 (c # cs) = kelvin_sign"
    | (o) "take 2 (c # cs) \<noteq> dotted_I" "take 3 (c # cs) \<noteq> kelvin_sign"
    by blast
  then show ?thesis
  proof cases
    case i
    then obtain cs' where d: "c = CHR 0xC4" "cs = CHR 0xB0 # cs'"
      by (cases cs) (auto simp: dotted_I_def)
    have "ToLower (c # cs) = CHR ''i'' # ToLower cs'"
      unfolding d by (simp add: ToLower.simps dotted_I_def)
    then show ?thesis
      unfolding Cons d using ne by (auto simp: lower_forms_def dotted_I_def kelvin_sign_def)
  next
    case k
    then obtain cs' where d: "c = CHR 0xE2" "cs = CHR 0x84 # CHR 0xAA # cs'"
      by (cases cs; cases "tl cs") (auto simp: kelvin_sign_def)
    have "ToLower (c # cs) = CHR ''k'' # ToLower cs'"
      unfolding d by (simp add: ToLower.simps dotted_I_def kelvin_sign_def)
    then show ?thesis
      unfolding Cons d using ne by (auto simp: lower_forms_def dotted_I_def kelvin_sign_def)
  next
    case o
    then have "ToLower (c # cs) = lower_char c # ToLower cs" by (simp add: ToLower.simps)
    then have "ToLower (c # cs) = l # ls \<longleftrightarrow> (c = l \<or> c = upper_char l) \<and> ToLower cs = ls"
      using lower_char_eq_iff [OF assms, of c] by simp
    moreover have "list_ex (\<lambda>p. take (length p) (c # cs) = p
              \<and> ToLower (drop (length p) (c # cs)) = ls) (lower_forms l)
        \<longleftrightarrow> (c = l \<or> c = upper_char l) \<and> ToLower cs = ls"
      using o by (auto simp: lower_forms_def)
    ultimately show ?thesis unfolding Cons by blast
  qed
qed

lemma ToUpper_eq_Nil [simp]: "ToUpper d = [] \<longleftrightarrow> d = []"
  by (cases d) (simp_all add: ToUpper.simps)

lemma ToLower_eq_Nil [simp]: "ToLower d = [] \<longleftrightarrow> d = []"
  by (cases d) (simp_all add: ToLower.simps)

lemma ToUpper_spelt:
  "set w \<subseteq> set upper_letters \<Longrightarrow> ToUpper d = w \<longleftrightarrow> spelt upper_forms w d"
proof (induction w arbitrary: d)
  case Nil
  show ?case by simp
next
  case (Cons u us)
  then have u: "u \<in> set upper_letters" and IH: "\<And>d. ToUpper d = us \<longleftrightarrow> spelt upper_forms us d"
    by simp_all
  show ?case
    unfolding ToUpper_Cons_iff [OF u] spelt.simps IH ..
qed

lemma ToLower_spelt:
  "set w \<subseteq> set lower_letters \<Longrightarrow> ToLower d = w \<longleftrightarrow> spelt lower_forms w d"
proof (induction w arbitrary: d)
  case Nil
  show ?case by simp
next
  case (Cons l ls)
  then have l: "l \<in> set lower_letters" and IH: "\<And>d. ToLower d = ls \<longleftrightarrow> spelt lower_forms ls d"
    by simp_all
  show ?case
    unfolding ToLower_Cons_iff [OF l] spelt.simps IH ..
qed

lemma letter_case_spelt_upper:
  "set w \<subseteq> set upper_letters \<Longrightarrow> letter_case w d \<Longrightarrow> spelt upper_forms w d"
proof (induction w arbitrary: d)
  case Nil
  then show ?case by (simp add: letter_case_def)
next
  case (Cons u us)
  from Cons.prems(2) obtain c cs where d: "d = c # cs" "upper_char c = upper_char u"
    "letter_case us cs"
    by (cases d) (auto simp: letter_case_def)
  from Cons.prems(1) have u: "u \<in> set upper_letters" by simp
  from letters_facts(5) u have "u \<notin> set lower_letters" by blast
  then have "upper_char u = u" by (rule upper_char_other)
  with d(2) upper_char_eq_iff [OF u, of c] have "c = u \<or> c = lower_char u" by simp
  then have m: "[c] \<in> set (upper_forms u)" by (auto simp: upper_forms_def)
  from Cons.IH [of cs] Cons.prems(1) d(3) have "spelt upper_forms us cs" by simp
  then have "take (length [c]) (c # cs) = [c]
      \<and> spelt upper_forms us (drop (length [c]) (c # cs))" by simp
  with m show ?case unfolding d(1) spelt.simps list_ex_iff by blast
qed

lemma letter_case_spelt_lower:
  "set w \<subseteq> set lower_letters \<Longrightarrow> letter_case w d \<Longrightarrow> spelt lower_forms w d"
proof (induction w arbitrary: d)
  case Nil
  then show ?case by (simp add: letter_case_def)
next
  case (Cons l ls)
  from Cons.prems(2) obtain c cs where d: "d = c # cs" "upper_char c = upper_char l"
    "letter_case ls cs"
    by (cases d) (auto simp: letter_case_def)
  from Cons.prems(1) have l: "l \<in> set lower_letters" by simp
  then have ul: "upper_char l \<in> set upper_letters" by (rule upper_char_in)
  from d(2) upper_char_eq_iff [OF ul, of c] have "c = upper_char l \<or> c = lower_char (upper_char l)"
    by simp
  moreover have "lower_char (upper_char l) = l"
    using lower_char_eq_iff [OF l, of "upper_char l"] by simp
  ultimately have m: "[c] \<in> set (lower_forms l)" by (auto simp: lower_forms_def)
  from Cons.IH [of cs] Cons.prems(1) d(3) have "spelt lower_forms ls cs" by simp
  then have "take (length [c]) (c # cs) = [c]
      \<and> spelt lower_forms ls (drop (length [c]) (c # cs))" by simp
  with m show ?case unfolding d(1) spelt.simps list_ex_iff by blast
qed

lemma word_letters:
  "set ''INPUT'' \<subseteq> set upper_letters" "set ''OUTPUT'' \<subseteq> set upper_letters"
  "set ''BOTH'' \<subseteq> set upper_letters"
  "set ''tcp'' \<subseteq> set lower_letters" "set ''udp'' \<subseteq> set lower_letters"
  "set ''icmp'' \<subseteq> set lower_letters" "set ''all'' \<subseteq> set lower_letters"
  by (simp_all add: upper_letters_def lower_letters_def)

lemma direction_of_cases:
  "direction_of d =
     (if d = [] \<or> spelt upper_forms ''BOTH'' d then Inr []
      else if spelt upper_forms ''INPUT'' d then Inr ''INPUT''
      else if spelt upper_forms ''OUTPUT'' d then Inr ''OUTPUT''
      else Inl (Error (''Invalid direction '' @ [CHR 0x27] @ d @ [CHR 0x27]
                       @ '', must be one of {INPUT, OUTPUT, BOTH} or blank.'')))"
proof -
  have w: "ToUpper d = ''INPUT'' \<longleftrightarrow> spelt upper_forms ''INPUT'' d"
    "ToUpper d = ''OUTPUT'' \<longleftrightarrow> spelt upper_forms ''OUTPUT'' d"
    "ToUpper d = ''BOTH'' \<longleftrightarrow> spelt upper_forms ''BOTH'' d"
    by (rule ToUpper_spelt, rule word_letters)+
  have x: "\<not> (spelt upper_forms ''BOTH'' d \<and> spelt upper_forms ''INPUT'' d)"
    "\<not> (spelt upper_forms ''BOTH'' d \<and> spelt upper_forms ''OUTPUT'' d)"
    unfolding w [symmetric] by auto
  show ?thesis
    unfolding direction_of_def Let_def w ToUpper_eq_Nil using x by auto
qed

lemma protocol_of_cases:
  "protocol_of p =
     (if p = [] \<or> spelt lower_forms ''all'' p then Inr ''all''
      else if spelt lower_forms ''tcp'' p then Inr ''tcp''
      else if spelt lower_forms ''udp'' p then Inr ''udp''
      else if spelt lower_forms ''icmp'' p then Inr ''icmp''
      else Inl (Error (''Invalid protocol '' @ [CHR 0x27] @ p @ [CHR 0x27]
                       @ '', must be one of {tcp, udp, icmp, all} or blank.'')))"
proof -
  have w: "ToLower p = ''tcp'' \<longleftrightarrow> spelt lower_forms ''tcp'' p"
    "ToLower p = ''udp'' \<longleftrightarrow> spelt lower_forms ''udp'' p"
    "ToLower p = ''icmp'' \<longleftrightarrow> spelt lower_forms ''icmp'' p"
    "ToLower p = ''all'' \<longleftrightarrow> spelt lower_forms ''all'' p"
    by (rule ToLower_spelt, rule word_letters)+
  have x: "\<not> (spelt lower_forms ''all'' p \<and> spelt lower_forms ''tcp'' p)"
    "\<not> (spelt lower_forms ''all'' p \<and> spelt lower_forms ''udp'' p)"
    "\<not> (spelt lower_forms ''all'' p \<and> spelt lower_forms ''icmp'' p)"
    unfolding w [symmetric] by auto
  show ?thesis
    unfolding protocol_of_def Let_def w ToLower_eq_Nil using x by auto
qed

text \<open>
  C6 does not hold as it stands: a direction may be none of \<open>INPUT\<close>, \<open>OUTPUT\<close> and
  \<open>BOTH\<close> in any letter case and still compile.  The direction written with U+0131,
  the dotless i, in the place of the \<open>I\<close> of \<open>INPUT\<close> is not blank and is none of the
  three words up to the case of its letters, and the target compiles to the rule of the
  \<open>INPUT\<close> chain, without an error: \<open>ToUpper\<close> takes U+0131 to \<open>I\<close>.
\<close>

theorem dotless_direction_compiles:
  "dotless_direction \<noteq> []
   \<and> \<not> letter_case ''INPUT'' dotless_direction
   \<and> \<not> letter_case ''OUTPUT'' dotless_direction
   \<and> \<not> letter_case ''BOTH'' dotless_direction
   \<and> rules failing_runner dotless_opts []
     = (Inr [''INPUT -s 10.0.0.5 -p all -j DROP''], [])"
  by (simp add: dotless_direction_not_words rules_def dotless_opts_def target_rules_def
      resolve_hosts_def ip_match_10_0_0_5 ip_find_all_10_0_0_5 direction_of_def
      ToUpper_dotless protocol_of_def ports_of_def chain_command_def)

text \<open>
  C6, amended.  Let a target have a host or ports, and let its host resolve to
  \<open>hosts\<close>.  If its protocol and its ports pass their checks, then: with an empty
  direction, or with a direction that spells \<open>BOTH\<close>, the target compiles to two rules,
  the one of the \<open>INPUT\<close> chain first and the one of the \<open>OUTPUT\<close> chain second; with
  a direction that spells \<open>INPUT\<close> it compiles to the rule of the \<open>INPUT\<close> chain only;
  with one that spells \<open>OUTPUT\<close> to the rule of the \<open>OUTPUT\<close> chain only; and the rule
  of a chain begins with the name of the chain.  With any other direction the
  compilation fails with the error \<open>Invalid direction\<close>, whatever the protocol and the
  ports are.  A direction spells one of the three words when it is the word in any
  letter case, where U+0131, the dotless i, also stands for \<open>I\<close>; every direction
  that is the word up to the case of its letters spells it.
\<close>

theorem direction_normalised:
  fixes run :: "'e CmdRunner"
  assumes "\<not> (Host t = [] \<and> DstPorts t = [] \<and> SrcPorts t = [])"
    and "resolve_hosts run (Host t) log = (Inr hosts, log')"
  shows "(\<forall>protocol dports sports.
            protocol_of (Protocol t) = (Inr protocol :: 'e error + string)
          \<and> ports_of (DstPorts t) = (Inr dports :: 'e error + string)
          \<and> ports_of (SrcPorts t) = (Inr sports :: 'e error + string) \<longrightarrow>
            (Direction t = [] \<or> spelt upper_forms ''BOTH'' (Direction t) \<longrightarrow>
               target_rules run t log
               = (Inr [chain_command ''INPUT'' '' -s '' hosts protocol dports sports,
                       chain_command ''OUTPUT'' '' -d '' hosts protocol dports sports], log'))
          \<and> (spelt upper_forms ''INPUT'' (Direction t) \<longrightarrow>
               target_rules run t log
               = (Inr [chain_command ''INPUT'' '' -s '' hosts protocol dports sports], log'))
          \<and> (spelt upper_forms ''OUTPUT'' (Direction t) \<longrightarrow>
               target_rules run t log
               = (Inr [chain_command ''OUTPUT'' '' -d '' hosts protocol dports sports], log'))
          \<and> take 5 (chain_command ''INPUT'' '' -s '' hosts protocol dports sports) = ''INPUT''
          \<and> take 6 (chain_command ''OUTPUT'' '' -d '' hosts protocol dports sports) = ''OUTPUT'')
       \<and> (bad_direction (Direction t) \<longrightarrow>
            target_rules run t log
            = (Inl (Error (''Invalid direction '' @ [CHR 0x27] @ Direction t @ [CHR 0x27]
                           @ '', must be one of {INPUT, OUTPUT, BOTH} or blank.'')), log'))
       \<and> (letter_case ''BOTH'' (Direction t) \<longrightarrow> spelt upper_forms ''BOTH'' (Direction t))
       \<and> (letter_case ''INPUT'' (Direction t) \<longrightarrow> spelt upper_forms ''INPUT'' (Direction t))
       \<and> (letter_case ''OUTPUT'' (Direction t) \<longrightarrow> spelt upper_forms ''OUTPUT'' (Direction t))"
proof -
  have both: "target_rules run t log
       = (Inr [chain_command ''INPUT'' '' -s '' hosts protocol dports sports,
               chain_command ''OUTPUT'' '' -d '' hosts protocol dports sports], log')"
    if "protocol_of (Protocol t) = (Inr protocol :: 'e error + string)"
      "ports_of (DstPorts t) = (Inr dports :: 'e error + string)"
      "ports_of (SrcPorts t) = (Inr sports :: 'e error + string)"
      "Direction t = [] \<or> spelt upper_forms ''BOTH'' (Direction t)"
    for protocol dports sports
    using assms that by (auto simp: target_rules_def direction_of_cases)
  have inp: "target_rules run t log
       = (Inr [chain_command ''INPUT'' '' -s '' hosts protocol dports sports], log')"
    if p: "protocol_of (Protocol t) = (Inr protocol :: 'e error + string)"
      "ports_of (DstPorts t) = (Inr dports :: 'e error + string)"
      "ports_of (SrcPorts t) = (Inr sports :: 'e error + string)"
      and sp: "spelt upper_forms ''INPUT'' (Direction t)"
    for protocol dports sports
  proof -
    from sp have u: "ToUpper (Direction t) = ''INPUT''"
      by (simp only: ToUpper_spelt [OF word_letters(1)])
    show ?thesis
      using assms p by (auto simp: target_rules_def direction_of_def Let_def u)
  qed
  have outp: "target_rules run t log
       = (Inr [chain_command ''OUTPUT'' '' -d '' hosts protocol dports sports], log')"
    if p: "protocol_of (Protocol t) = (Inr protocol :: 'e error + string)"
      "ports_of (DstPorts t) = (Inr dports :: 'e error + string)"
      "ports_of (SrcPorts t) = (Inr sports :: 'e error + string)"
      and sp: "spelt upper_forms ''OUTPUT'' (Direction t)"
    for protocol dports sports
  proof -
    from sp have u: "ToUpper (Direction t) = ''OUTPUT''"
      by (simp only: ToUpper_spelt [OF word_letters(2)])
    show ?thesis
      using assms p by (auto simp: target_rules_def direction_of_def Let_def u)
  qed
  have chains: "take 5 (chain_command ''INPUT'' f hosts protocol dports sports) = ''INPUT''"
    "take 6 (chain_command ''OUTPUT'' f hosts protocol dports sports) = ''OUTPUT''"
    for f protocol dports sports
    by (simp_all add: chain_command_def Let_def append_hosts_comma_join)
  have bad: "target_rules run t log
            = (Inl (Error (''Invalid direction '' @ [CHR 0x27] @ Direction t @ [CHR 0x27]
                           @ '', must be one of {INPUT, OUTPUT, BOTH} or blank.'')), log')"
    if "bad_direction (Direction t)"
    using assms that by (auto simp: target_rules_def direction_of_cases bad_direction_def)
  note lc = letter_case_spelt_upper [OF word_letters(3), of "Direction t"]
    letter_case_spelt_upper [OF word_letters(1), of "Direction t"]
    letter_case_spelt_upper [OF word_letters(2), of "Direction t"]
  from both inp outp chains bad lc show ?thesis by blast
qed

theorem direction_normalised_witness:
  "target_rules (\<lambda>log name args. Inl ())
     \<lparr>Host = ''10.0.0.5'', Direction = ''bOtH'', Protocol = [], DstPorts = [], SrcPorts = []\<rparr> []
   = (Inr [''INPUT -s 10.0.0.5 -p all -j DROP'', ''OUTPUT -d 10.0.0.5 -p all -j DROP''], [])
 \<and> target_rules (\<lambda>log name args. Inl ())
     \<lparr>Host = ''10.0.0.5'', Direction = ''sideways'', Protocol = [], DstPorts = [], SrcPorts = []\<rparr> []
   = (Inl (Error (''Invalid direction '' @ [CHR 0x27] @ ''sideways'' @ [CHR 0x27]
                  @ '', must be one of {INPUT, OUTPUT, BOTH} or blank.'')), [])"
proof -
  let ?run = "\<lambda>log name args. Inl () :: unit + string"
  have r: "resolve_hosts ?run ''10.0.0.5'' [] = (Inr [''10.0.0.5''], [])"
    by (simp add: resolve_hosts_def ip_match_10_0_0_5 ip_find_all_10_0_0_5)
  have c: "chain_command ''INPUT'' '' -s '' [''10.0.0.5''] ''all'' [] []
           = ''INPUT -s 10.0.0.5 -p all -j DROP''"
    "chain_command ''OUTPUT'' '' -d '' [''10.0.0.5''] ''all'' [] []
           = ''OUTPUT -d 10.0.0.5 -p all -j DROP''"
    by (simp_all add: chain_command_def)
  from direction_normalised
    [of "\<lparr>Host = ''10.0.0.5'', Direction = ''bOtH'', Protocol = [], DstPorts = [], SrcPorts = []\<rparr>"
        ?run "[]" "[''10.0.0.5'']" "[]"]
    direction_normalised
    [of "\<lparr>Host = ''10.0.0.5'', Direction = ''sideways'', Protocol = [], DstPorts = [], SrcPorts = []\<rparr>"
        ?run "[]" "[''10.0.0.5'']" "[]"]
  show ?thesis
    by (simp add: r c protocol_of_Nil ports_of_Nil spelt_examples bad_direction_def)
qed

section \<open>Failing before anything is applied\<close>

text \<open>
  A target that a check refuses, or whose lookup fails, makes the loop of \<open>rules\<close>
  return an error wherever it stands among the targets.
\<close>

lemma lookup_fails_dig:
  fixes run :: "'e CmdRunner"
  assumes "lookup_fails run log h"
  shows "\<exists>e log'. dig run h log = (Inl e, log')"
  using assms
  by (auto simp: lookup_fails_def dig_def RunCommand_def FindAllString_ip_literals
      split: sum.splits)

lemma bad_port_refused:
  "bad_port s \<Longrightarrow> \<exists>m. ports_of s = (Inl m :: 'e error + string)"
  by (simp add: ports_of_def bad_port_def MatchString_portPattern_last del: in_cls.simps)

lemma target_rules_invalid:
  fixes run :: "'e CmdRunner"
  assumes "invalid_target t"
  shows "\<exists>e log'. target_rules run t log = (Inl e, log')"
proof -
  obtain rh l1 where r: "resolve_hosts run (Host t) log = (rh, l1)"
    by (cases "resolve_hosts run (Host t) log")
  show ?thesis
  proof (cases "empty_target t")
    case True
    then show ?thesis by (simp add: target_rules_def empty_target_def)
  next
    case False
    with assms consider "bad_direction (Direction t)" | "bad_protocol (Protocol t)"
      | "bad_port (DstPorts t)" | "bad_port (SrcPorts t)"
      by (auto simp: invalid_target_def)
    then show ?thesis
    proof cases
      case 1
      then have "\<exists>m. direction_of (Direction t) = (Inl m :: 'e error + string)"
        by (simp add: direction_of_cases bad_direction_def)
      then show ?thesis
        unfolding target_rules_def r by (cases rh) (auto split: sum.splits)
    next
      case 2
      then have "\<exists>m. protocol_of (Protocol t) = (Inl m :: 'e error + string)"
        by (simp add: protocol_of_cases bad_protocol_def)
      then show ?thesis
        unfolding target_rules_def r by (cases rh) (auto split: sum.splits)
    next
      case 3
      then have "\<exists>m. ports_of (DstPorts t) = (Inl m :: 'e error + string)"
        by (rule bad_port_refused)
      then show ?thesis
        unfolding target_rules_def r by (cases rh) (auto split: sum.splits)
    next
      case 4
      then have "\<exists>m. ports_of (SrcPorts t) = (Inl m :: 'e error + string)"
        by (rule bad_port_refused)
      then show ?thesis
        unfolding target_rules_def r by (cases rh) (auto split: sum.splits)
    qed
  qed
qed

lemma target_rules_unresolved:
  fixes run :: "'e CmdRunner"
  assumes "Host t \<noteq> []" and "ip_literals (Host t) = []"
    and "lookup_fails run log (Host t)"
  shows "\<exists>e log'. target_rules run t log = (Inl e, log')"
proof -
  from lookup_fails_dig [OF assms(3)]
  obtain e l where "dig run (Host t) log = (Inl e, l)" by blast
  then show ?thesis
    using assms(1,2) by (simp add: target_rules_def resolve_hosts_def MatchString_ip_literals)
qed

lemma rules_loop_append:
  "rules_loop run (pre @ ts) acc log =
     (case rules_loop run pre acc log of
        (Inl e, log') \<Rightarrow> (Inl e, log')
      | (Inr rs, log') \<Rightarrow> rules_loop run ts rs log')"
  by (induction pre arbitrary: acc log) (auto split: prod.splits sum.splits)

lemma rules_failure_no_apply:
  fixes run :: "'e CmdRunner"
  assumes "rules run opts [] = (Inl e, log)"
  shows "(\<forall>c \<in> set log. fst c = ''dig'')
       \<and> Execute NewOptionalTimeoutCh run opts stopCh
           = (case NewOptionalTimeoutCh (Timeout opts) of
                Inl e' \<Rightarrow> (Returned (Some e'), [])
              | Inr timeoutCh \<Rightarrow> (Returned (Some e), log))"
  using rules_log [OF assms] by (simp add: Execute_def assms split: sum.splits)

text \<open>
  C3 does not hold as it stands: a target may fail validation in the sense of the
  specification and be applied.  The direction written with U+0131 in the place of
  the \<open>I\<close> of \<open>INPUT\<close> is none of the three words up to the case of its letters, and
  \<open>Execute\<close> compiles the target, applies its rule and reverts it.  So it does with
  the ports \<open>abc80\<close>, which are no port and no range of ports.
\<close>

theorem invalid_targets_applied:
  "dotless_direction \<noteq> []
   \<and> \<not> letter_case ''INPUT'' dotless_direction
   \<and> \<not> letter_case ''OUTPUT'' dotless_direction
   \<and> \<not> letter_case ''BOTH'' dotless_direction
   \<and> Execute no_timer ok_runner dotless_opts (Some 0)
     = (Returned None,
        [(''iptables'', [''-A'', ''INPUT'', ''-s'', ''10.0.0.5'', ''-p'', ''all'', ''-j'', ''DROP'']),
         (''iptables'', [''-D'', ''INPUT'', ''-s'', ''10.0.0.5'', ''-p'', ''all'', ''-j'', ''DROP''])])
   \<and> \<not> is_port_spec ''abc80''
   \<and> Execute no_timer ok_runner prefixed_port_opts (Some 0)
     = (Returned None,
        [(''iptables'', [''-A'', ''INPUT'', ''-p'', ''all'', ''-dport'', ''abc80'', ''-j'', ''DROP'']),
         (''iptables'', [''-D'', ''INPUT'', ''-p'', ''all'', ''-dport'', ''abc80'', ''-j'', ''DROP''])])"
  by (simp add: dotless_direction_not_words not_port_spec_abc80 Execute_def no_timer_def
      ok_runner_def iptables_def RunCommand_def rules_def dotless_opts_def
      prefixed_port_opts_def target_rules_def resolve_hosts_def ip_match_10_0_0_5
      ip_find_all_10_0_0_5 direction_of_def ToUpper_dotless ToUpper_words protocol_of_def
      ports_of_def port_match_abc80 chain_command_def)

text \<open>
  C3, amended.  Whenever \<open>rules\<close> returns an error it has run nothing but lookups, and
  \<open>Execute\<close> returns that error (or the one of a refused timeout) with the same log:
  there is not a single invocation of \<open>iptables\<close>, nothing is applied.  And \<open>rules\<close>
  returns an error as soon as a target of the options has neither host nor ports, or a
  direction that is not blank and spells none of \<open>INPUT\<close>, \<open>OUTPUT\<close>, \<open>BOTH\<close>, or
  a protocol that is not blank and spells none of \<open>tcp\<close>, \<open>udp\<close>, \<open>icmp\<close>,
  \<open>all\<close>, or ports that do not end in a decimal digit, or a host that holds no
  address and whose lookup fails or finds no address in the state the runner is in
  when the targets before it have compiled.  (Spelling a word is being the word in
  any letter case, where U+0131 also stands for the \<open>I\<close> of a direction and U+0130
  for the \<open>i\<close> of a protocol.)
\<close>

theorem compile_failure_before_apply:
  fixes run :: "'e CmdRunner"
  shows "(\<forall>e log. rules run opts [] = (Inl e, log) \<longrightarrow>
             (\<forall>c \<in> set log. fst c = ''dig'')
           \<and> Execute NewOptionalTimeoutCh run opts stopCh
               = (case NewOptionalTimeoutCh (Timeout opts) of
                    Inl e' \<Rightarrow> (Returned (Some e'), [])
                  | Inr timeoutCh \<Rightarrow> (Returned (Some e), log))
           \<and> (\<forall>c \<in> set (snd (Execute NewOptionalTimeoutCh run opts stopCh)).
                 fst c \<noteq> ''iptables''))
       \<and> (\<forall>pre t post.
             Targets opts = pre @ t # post
           \<and> (invalid_target t
              \<or> (Host t \<noteq> [] \<and> ip_literals (Host t) = []
                 \<and> (\<forall>rs log. rules_loop run pre [] [] = (Inr rs, log)
                       \<longrightarrow> lookup_fails run log (Host t))))
           \<longrightarrow> (\<exists>e log. rules run opts [] = (Inl e, log)))"
proof -
  have general: "(\<forall>c \<in> set log. fst c = ''dig'')
           \<and> Execute NewOptionalTimeoutCh run opts stopCh
               = (case NewOptionalTimeoutCh (Timeout opts) of
                    Inl e' \<Rightarrow> (Returned (Some e'), [])
                  | Inr timeoutCh \<Rightarrow> (Returned (Some e), log))
           \<and> (\<forall>c \<in> set (snd (Execute NewOptionalTimeoutCh run opts stopCh)).
                 fst c \<noteq> ''iptables'')"
    if r: "rules run opts [] = (Inl e, log)" for e log
  proof -
    note f = rules_failure_no_apply [OF r, of NewOptionalTimeoutCh stopCh]
    from f have "\<forall>c \<in> set (snd (Execute NewOptionalTimeoutCh run opts stopCh)).
                   fst c \<noteq> ''iptables''"
      by (auto split: sum.splits)
    with f show ?thesis by blast
  qed
  have fails: "\<exists>e log. rules run opts [] = (Inl e, log)"
    if ts: "Targets opts = pre @ t # post"
      and bad: "invalid_target t
              \<or> (Host t \<noteq> [] \<and> ip_literals (Host t) = []
                 \<and> (\<forall>rs log. rules_loop run pre [] [] = (Inr rs, log)
                       \<longrightarrow> lookup_fails run log (Host t)))"
    for pre t post
  proof -
    obtain r1 l1 where p: "rules_loop run pre [] [] = (r1, l1)"
      by (cases "rules_loop run pre [] []")
    show ?thesis
    proof (cases r1)
      case (Inl e)
      with p show ?thesis
        by (simp add: rules_def ts rules_loop_append)
    next
      case (Inr rs)
      with p bad
      have "invalid_target t
          \<or> (Host t \<noteq> [] \<and> ip_literals (Host t) = [] \<and> lookup_fails run l1 (Host t))"
        by blast
      then have "\<exists>e log'. target_rules run t l1 = (Inl e, log')"
        using target_rules_invalid [of t run l1] target_rules_unresolved [of t run l1]
        by blast
      then obtain e log' where "target_rules run t l1 = (Inl e, log')" by blast
      with p Inr show ?thesis
        by (simp add: rules_def ts rules_loop_append)
    qed
  qed
  from general fails show ?thesis by blast
qed

theorem compile_failure_before_apply_witness:
  "Execute no_timer ok_runner bad_port_opts (Some 0)
     = (Returned (Some (Error ''Invalid destination port specified abc'')), [])
   \<and> Execute no_timer failing_runner unresolved_opts (Some 0)
     = (Returned (Some (WrapError () ''resolving host name'')),
        [(''dig'', [''+short'', ''example.com''])])"
proof -
  let ?ok = "\<lparr>Host = [], Direction = [], Protocol = [], DstPorts = ''8080'', SrcPorts = []\<rparr>"
  let ?bad = "\<lparr>Host = [], Direction = [], Protocol = [], DstPorts = ''abc'', SrcPorts = []\<rparr>"
  let ?name = "\<lparr>Host = ''example.com'', Direction = [], Protocol = [], DstPorts = [],
                SrcPorts = []\<rparr>"
  have t1: "Targets bad_port_opts = [?ok] @ ?bad # []"
    by (simp add: bad_port_opts_def)
  have i1: "invalid_target ?bad"
    by (simp add: invalid_target_def bad_port_def)
  note c1 = compile_failure_before_apply
    [where opts = bad_port_opts and run = ok_runner and NewOptionalTimeoutCh = no_timer
       and stopCh = "Some 0"]
  from c1 t1 i1 obtain e1 l1 where r1: "rules ok_runner bad_port_opts [] = (Inl e1, l1)"
    by blast
  with c1 have "Execute no_timer ok_runner bad_port_opts (Some 0) = (Returned (Some e1), l1)"
    by (simp add: no_timer_def)
  with r1 have a: "Execute no_timer ok_runner bad_port_opts (Some 0)
     = (Returned (Some (Error ''Invalid destination port specified abc'')), [])"
    by (simp add: rules_bad_port_opts)
  have t2: "Targets unresolved_opts = [?ok] @ ?name # []"
    by (simp add: unresolved_opts_def)
  have i2: "Host ?name \<noteq> [] \<and> ip_literals (Host ?name) = []
    \<and> (\<forall>rs log. rules_loop failing_runner [?ok] [] [] = (Inr rs, log)
          \<longrightarrow> lookup_fails failing_runner log (Host ?name))"
    by (simp add: ip_literals_example_com lookup_fails_def failing_runner_def)
  note c2 = compile_failure_before_apply
    [where opts = unresolved_opts and run = failing_runner and NewOptionalTimeoutCh = no_timer
       and stopCh = "Some 0"]
  from c2 t2 i2 obtain e2 l2 where r2: "rules failing_runner unresolved_opts [] = (Inl e2, l2)"
    by blast
  with c2 have "Execute no_timer failing_runner unresolved_opts (Some 0)
     = (Returned (Some e2), l2)"
    by (simp add: no_timer_def)
  with r2 have b: "Execute no_timer failing_runner unresolved_opts (Some 0)
     = (Returned (Some (WrapError () ''resolving host name'')),
        [(''dig'', [''+short'', ''example.com''])])"
    by (simp add: rules_unresolved_opts)
  from a b show ?thesis by blast
qed

end
